theory Spec2Isabelle
  imports Main "HOL-Library.AList" "HOL-Library.Sublist"
begin

section \<open>The preview subsystem of apps/web/src/server.ts\<close>

text \<open>
  The server talks to the operating system (sockets, child processes, the file system, the
  clock) and to the dev servers it starts. Each call is modelled as an event appended to
  a trace, with its result supplied by an environment: a record of oracles that may
  depend on the whole history so far. Time is a logical clock in milliseconds.
\<close>

subsection \<open>Data\<close>

datatype error = Error string

datatype http_method = HEAD | GET

datatype stdio = Inherit | Pipe | Ignore

record spawn_call =
  sp_cmd :: string
  sp_args :: "string list"
  sp_cwd :: string
  sp_env :: "(string \<times> string) list"
  sp_stdio :: stdio

text \<open>
  \<open>Listen p ok\<close> is \<open>srv.listen(p, "0.0.0.0")\<close> with the event it was answered by
  (\<open>listening\<close> or \<open>error\<close>); \<open>Spawn c pid\<close> is \<open>spawn(cmd, args, {cwd, env, stdio})\<close>
  with the pid of the child it returned; \<open>Fetch url m t\<close> is a \<open>fetch\<close> aborted after
  \<open>t\<close> ms; \<open>Sleep d\<close> is \<open>setTimeout(r, d)\<close> awaited; \<open>Kill pid sig\<close> is
  \<open>process.kill\<close>; \<open>Remove path\<close> is \<open>fs.remove\<close>.
\<close>

datatype event =
    Listen nat bool
  | Close nat
  | Spawn spawn_call "int option"
  | Fetch string http_method nat
  | Sleep nat
  | Kill int string
  | Remove string

record world =
  now :: nat
  trace :: "event list"

text \<open>What a backend does with a request: a response with a status, or no response.\<close>

datatype reply = Responds nat | NoResponse

record package_json =
  dependencies :: "(string \<times> string) list option"
  devDependencies :: "(string \<times> string) list option"

text \<open>
  The environment. \<open>respond w url m\<close> is the reply and the time it takes;
  \<open>bound_port w c\<close> is the port the child of spawn call \<open>c\<close> reports on its output as
  the one it bound (no function of the server reads it); \<open>url_resolve p base\<close> is what
  the URL library makes of \<open>new URL(p, base).toString()\<close>, \<open>None\<close> when it throws.
\<close>

record environment =
  platform :: string
  process_env :: "(string \<times> string) list"
  bindable :: "world \<Rightarrow> nat \<Rightarrow> bool"
  respond :: "world \<Rightarrow> string \<Rightarrow> http_method \<Rightarrow> reply \<times> nat"
  child_pid :: "world \<Rightarrow> spawn_call \<Rightarrow> int option"
  bound_port :: "world \<Rightarrow> spawn_call \<Rightarrow> nat"
  kill_ok :: "world \<Rightarrow> int \<Rightarrow> bool"
  remove_ok :: "world \<Rightarrow> string \<Rightarrow> bool"
  readJson :: "world \<Rightarrow> string \<Rightarrow> package_json option"
  url_resolve :: "string \<Rightarrow> string \<Rightarrow> string option"

definition emit :: "event list \<Rightarrow> world \<Rightarrow> world" where
  "emit es w = w\<lparr>trace := trace w @ es\<rparr>"

subsection \<open>getFreePort\<close>

text \<open>
  \<^verbatim>\<open>
  const tryPort = (p) => new Promise((resolve) => {
    const srv = net.createServer();
    srv.once("error", () => resolve(false));
    srv.once("listening", () => srv.close(() => resolve(true)));
    srv.listen(p, "0.0.0.0"); });
  for (let p = start; p <= end; p++) if (await tryPort(p)) return p;
  throw new Error("No free port found");
  \<close>
\<close>

definition tryPort :: "environment \<Rightarrow> nat \<Rightarrow> world \<Rightarrow> bool \<times> world" where
  "tryPort E p w =
     (if bindable E w p then (True, emit [Listen p True, Close p] w)
      else (False, emit [Listen p False] w))"

fun tryPorts :: "environment \<Rightarrow> nat list \<Rightarrow> world \<Rightarrow> (error + nat) \<times> world" where
  "tryPorts E [] w = (Inl (Error ''No free port found''), w)"
| "tryPorts E (p # ps) w =
     (case tryPort E p w of
        (True, w') \<Rightarrow> (Inr p, w')
      | (False, w') \<Rightarrow> tryPorts E ps w')"

text \<open>The \<open>for\<close> loop visits the ports \<open>start, start + 1, ..., end\<close> in that order.\<close>

definition getFreePort :: "environment \<Rightarrow> nat \<Rightarrow> nat \<Rightarrow> world \<Rightarrow> (error + nat) \<times> world" where
  "getFreePort E start end_port w = tryPorts E [start..<Suc end_port] w"

text \<open>The world in which port \<open>q\<close> is tried, after the ports of \<open>qs\<close> before it failed.\<close>

definition after_failed :: "nat list \<Rightarrow> world \<Rightarrow> world" where
  "after_failed qs w = emit (map (\<lambda>q. Listen q False) qs) w"

subsection \<open>ping and waitForOkAny\<close>

text \<open>
  Node clamps a timer delay below 1 ms to 1 ms, so every \<open>setTimeout\<close> lets at least one
  millisecond pass.
\<close>

definition timer_delay :: "nat \<Rightarrow> nat" where
  "timer_delay d = max 1 d"

definition sleep :: "nat \<Rightarrow> world \<Rightarrow> world" where
  "sleep d w = w\<lparr>now := now w + timer_delay d, trace := trace w @ [Sleep d]\<rparr>"

record ping_result =
  ok :: bool
  status :: nat

text \<open>
  \<^verbatim>\<open>
  try { const ctrl = new AbortController();
        const t = setTimeout(() => ctrl.abort(), timeoutMs);
        const r = await fetch(url, { method, signal: ctrl.signal });
        clearTimeout(t);
        return { ok: r.ok, status: r.status };
  } catch { return { ok: false, status: 0 }; }
  \<close>
  \<open>r.ok\<close> is a status from 200 to 299. A reply that takes as long as the abort timer
  or longer is aborted; no response (connection refused, reset) rejects the fetch.
\<close>

definition ping :: "environment \<Rightarrow> string \<Rightarrow> http_method \<Rightarrow> nat \<Rightarrow> world \<Rightarrow> ping_result \<times> world" where
  "ping E url m timeoutMs w =
     (let (r, latency) = respond E w url m;
          w1 = emit [Fetch url m timeoutMs] w
      in if latency < timer_delay timeoutMs then
           (case r of
              Responds st \<Rightarrow>
                (\<lparr>ok = (200 \<le> st \<and> st \<le> 299), status = st\<rparr>, w1\<lparr>now := now w + latency\<rparr>)
            | NoResponse \<Rightarrow> (\<lparr>ok = False, status = 0\<rparr>, w1\<lparr>now := now w + latency\<rparr>))
         else (\<lparr>ok = False, status = 0\<rparr>, w1\<lparr>now := now w + timer_delay timeoutMs\<rparr>))"

text \<open>\<open>String(port)\<close>: the decimal digits of a number.\<close>

fun String_nat :: "nat \<Rightarrow> string" where
  "String_nat n =
     (if n < 10 then [''0123456789'' ! n]
      else String_nat (n div 10) @ [''0123456789'' ! (n mod 10)])"

declare String_nat.simps [simp del]

text \<open>
  \<open>new URL(p, base).toString()\<close> for a candidate path \<open>p\<close>, which is absolute: the path
  replaces the one of the base. For a base \<open>http://127.0.0.1:<port>\<close>, with or without
  a \<open>/\<close> after it, that is the base's origin followed by \<open>p\<close>; a base without a
  \<open>:\<close> has no scheme and the constructor throws; every other base is left to the
  environment.
\<close>

definition paths :: "string list" where
  "paths = [''/'', ''/index.html'', ''/api/health'', ''/api/hello'', ''/api/status'']"

text \<open>The origins \<open>http://127.0.0.1:<port>\<close> as the library writes them: the port in
  decimal without leading zeros, and not 80, which it leaves out.\<close>

definition loopback_origins :: "string list" where
  "loopback_origins =
     map (\<lambda>n. ''http://127.0.0.1:'' @ String_nat n) (filter (\<lambda>n. n \<noteq> 80) [1..<65536])"

definition strip_slash :: "string \<Rightarrow> string" where
  "strip_slash b = (if b \<noteq> [] \<and> last b = CHR ''/'' then butlast b else b)"

definition new_URL :: "environment \<Rightarrow> string \<Rightarrow> string \<Rightarrow> string option" where
  "new_URL E p base =
     (if p \<in> set paths \<and> strip_slash base \<in> set loopback_origins then Some (strip_slash base @ p)
      else if CHR '':'' \<notin> set base then None
      else url_resolve E p base)"

text \<open>
  The \<open>for (const p of paths)\<close> of one tick; True is the \<open>return true\<close> inside it.
  \<^verbatim>\<open>
  try { const url = new URL(p, base).toString();
        const head = await ping(url, "HEAD", Math.min(2000, intervalMs));
        if (head.ok) return true;
        const get = await ping(url, "GET", Math.min(2000, intervalMs));
        if (get.ok) return true;
  } catch { /* ignore */ }
  \<close>
  Only the constructor can throw; the \<open>catch\<close> then goes on to the next path.
\<close>

fun probe_paths :: "environment \<Rightarrow> string \<Rightarrow> nat \<Rightarrow> string list \<Rightarrow> world \<Rightarrow> bool \<times> world" where
  "probe_paths E base intervalMs [] w = (False, w)"
| "probe_paths E base intervalMs (p # ps) w =
     (case new_URL E p base of
        None \<Rightarrow> probe_paths E base intervalMs ps w
      | Some url \<Rightarrow>
          (let (head, w1) = ping E url HEAD (min 2000 intervalMs) w
           in if ok head then (True, w1)
              else (let (get, w2) = ping E url GET (min 2000 intervalMs) w1
                    in if ok get then (True, w2)
                       else probe_paths E base intervalMs ps w2)))"

lemma now_emit: "now (emit es w) = now w"
  by (simp add: emit_def)

lemma now_ping: "now w \<le> now (snd (ping E url m t w))"
  by (simp add: ping_def Let_def now_emit split: prod.splits reply.splits)

lemma now_probe_paths: "now w \<le> now (snd (probe_paths E base i ps w))"
proof (induction ps arbitrary: w)
  case Nil
  then show ?case by simp
next
  case (Cons p ps)
  show ?case
  proof (cases "new_URL E p base")
    case None
    then show ?thesis using Cons.IH by simp
  next
    case (Some url)
    have a: "now w \<le> now (snd (ping E url HEAD (min 2000 i) w))"
      by (rule now_ping)
    have b: "now (snd (ping E url HEAD (min 2000 i) w))
        \<le> now (snd (ping E url GET (min 2000 i) (snd (ping E url HEAD (min 2000 i) w))))"
      by (rule now_ping)
    from a b Cons.IH Some show ?thesis
      by (auto simp: Let_def split: prod.splits intro: order_trans
          dest!: arg_cong[where f = snd])
  qed
qed

lemma now_probe_paths_eq: "probe_paths E base i ps w = (b, w1) \<Longrightarrow> now w \<le> now w1"
  using now_probe_paths[of w E base i ps] by simp

text \<open>
  \<^verbatim>\<open>
  const t0 = Date.now();
  while (Date.now() - t0 < totalMs) {
    for (const p of paths) { ... }
    await new Promise((r) => setTimeout(r, intervalMs));
  }
  return false;
  \<close>
\<close>

function waitLoop :: "environment \<Rightarrow> string \<Rightarrow> nat \<Rightarrow> nat \<Rightarrow> nat \<Rightarrow> world \<Rightarrow> bool \<times> world" where
  "waitLoop E base t0 totalMs intervalMs w =
     (if int (now w) - int t0 < int totalMs then
        (case probe_paths E base intervalMs paths w of
           (True, w1) \<Rightarrow> (True, w1)
         | (False, w1) \<Rightarrow> waitLoop E base t0 totalMs intervalMs (sleep intervalMs w1))
      else (False, w))"
  by pat_completeness auto
termination
  apply (relation "measure (\<lambda>(E, base, t0, totalMs, intervalMs, w). nat (int t0 + int totalMs - int (now w)))")
   apply simp
  apply (auto simp: sleep_def timer_delay_def dest!: now_probe_paths_eq[OF sym])
  done

declare waitLoop.simps [simp del]

definition waitForOkAny :: "environment \<Rightarrow> string \<Rightarrow> nat \<Rightarrow> nat \<Rightarrow> world \<Rightarrow> bool \<times> world" where
  "waitForOkAny E base totalMs intervalMs w = waitLoop E base (now w) totalMs intervalMs w"


subsection \<open>spawnDev and spawnDevServerWithRetry\<close>

text \<open>
  \<^verbatim>\<open>
  function spawnDev(cwd, args, env, stdio = "inherit") {
    const cmd = process.platform === "win32" ? "npm.cmd" : "npm";
    return spawn(cmd, args, { cwd, env, stdio }); }
  \<close>
  The child is modelled by the pid of the handle (\<open>None\<close> is an undefined \<open>child.pid\<close>).
\<close>

definition spawnDev ::
  "environment \<Rightarrow> string \<Rightarrow> string list \<Rightarrow> (string \<times> string) list \<Rightarrow> stdio \<Rightarrow> world
    \<Rightarrow> int option \<times> world" where
  "spawnDev E dir as vars io w =
     (let c = \<lparr>sp_cmd = (if platform E = ''win32'' then ''npm.cmd'' else ''npm''),
                sp_args = as, sp_cwd = dir, sp_env = vars, sp_stdio = io\<rparr>;
          child = child_pid E w c
      in (child, emit [Spawn c child] w))"

text \<open>\<open>process.kill(pid, sig)\<close> throws when the signal cannot be delivered.\<close>

definition process_kill :: "environment \<Rightarrow> int \<Rightarrow> string \<Rightarrow> world \<Rightarrow> (error + unit) \<times> world" where
  "process_kill E pid sig w =
     ((if kill_ok E w pid then Inr () else Inl (Error ''kill failed'')), emit [Kill pid sig] w)"

text \<open>\<open>fs.remove(path)\<close> rejects when the path cannot be removed.\<close>

definition fs_remove :: "environment \<Rightarrow> string \<Rightarrow> world \<Rightarrow> (error + unit) \<times> world" where
  "fs_remove E path w =
     ((if remove_ok E w path then Inr () else Inl (Error ''remove failed'')), emit [Remove path] w)"

record strategy =
  args :: "string list"
  env :: "(string \<times> string) list option"
  note_of :: string

text \<open>
  The \<open>tries\<close> array of one attempt. \<open>{ ...process.env, PORT: String(port) }\<close> is the
  process environment with \<open>PORT\<close> set.
\<close>

definition tries :: "environment \<Rightarrow> bool \<Rightarrow> bool \<Rightarrow> nat \<Rightarrow> strategy list" where
  "tries E isVite isNext p =
     (let commonArgs = [''run'', ''dev'', ''--'', ''--port'', String_nat p];
          vars = AList.update ''PORT'' (String_nat p) (process_env E)
      in (if isVite then
            [\<lparr>args = commonArgs @ [''--host'', ''127.0.0.1'', ''--strictPort''], env = Some vars,
              note_of = ''vite --port --strictPort''\<rparr>]
          else if isNext then
            [\<lparr>args = commonArgs, env = Some vars, note_of = ''next --port''\<rparr>]
          else
            [\<lparr>args = commonArgs, env = Some vars, note_of = ''unknown --port''\<rparr>])
         @ (if isNext then
              [\<lparr>args = [''run'', ''dev''], env = Some vars, note_of = ''next env PORT only''\<rparr>]
            else []))"

text \<open>
  \<^verbatim>\<open>
  for (const t of tries) {
    const child = spawnDev(cwd, t.args, t.env ?? process.env);
    const ok = await waitForOkAny(`http://127.0.0.1:${port}`);
    if (ok) return { child, port };
    try { process.kill(child.pid ?? -1, "SIGTERM"); } catch {}
    await new Promise((r) => setTimeout(r, 300));
  }
  \<close>
  \<open>Some child\<close> is the \<open>return\<close> inside the loop.
\<close>

fun try_each :: "environment \<Rightarrow> string \<Rightarrow> nat \<Rightarrow> strategy list \<Rightarrow> world \<Rightarrow> int option option \<times> world" where
  "try_each E dir p [] w = (None, w)"
| "try_each E dir p (t # ts) w =
     (let (child, w1) = spawnDev E dir (args t)
                          (case env t of Some vars \<Rightarrow> vars | None \<Rightarrow> process_env E) Inherit w;
          (healthy, w2) = waitForOkAny E (''http://127.0.0.1:'' @ String_nat p) 20000 600 w1
      in if healthy then (Some child, w2)
         else (let w3 = snd (process_kill E (case child of Some pid \<Rightarrow> pid | None \<Rightarrow> - 1) ''SIGTERM'' w2)
               in try_each E dir p ts (sleep 300 w3)))"

text \<open>
  The \<open>for (let attempt = 0; attempt < maxRetry; attempt++)\<close> loop, by the number of
  attempts left, and the \<open>throw\<close> after it.
\<close>

fun attempts ::
  "environment \<Rightarrow> string \<Rightarrow> bool \<Rightarrow> bool \<Rightarrow> nat \<Rightarrow> world \<Rightarrow> (error + int option \<times> nat) \<times> world" where
  "attempts E dir isVite isNext 0 w = (Inl (Error ''Failed to start dev server''), w)"
| "attempts E dir isVite isNext (Suc n) w =
     (case getFreePort E 5100 5199 w of
        (Inl e, w1) \<Rightarrow> (Inl e, w1)
      | (Inr p, w1) \<Rightarrow>
          (case try_each E dir p (tries E isVite isNext p) w1 of
             (Some child, w2) \<Rightarrow> (Inr (child, p), w2)
           | (None, w2) \<Rightarrow> attempts E dir isVite isNext n w2))"

text \<open>
  \<open>!!deps.vite\<close> for \<open>deps = { ...dependencies, ...devDependencies }\<close>: the entry of
  devDependencies wins, and an empty version string is falsy.
\<close>

definition has_dep :: "package_json \<Rightarrow> string \<Rightarrow> bool" where
  "has_dep pkg name =
     (let deps = (case devDependencies pkg of Some d \<Rightarrow> d | None \<Rightarrow> [])
               @ (case dependencies pkg of Some d \<Rightarrow> d | None \<Rightarrow> [])
      in case map_of deps name of Some v \<Rightarrow> v \<noteq> [] | None \<Rightarrow> False)"

definition spawnDevServerWithRetry ::
  "environment \<Rightarrow> string \<Rightarrow> nat \<Rightarrow> world \<Rightarrow> (error + int option \<times> nat) \<times> world" where
  "spawnDevServerWithRetry E dir maxRetry w =
     (let (isVite, isNext) =
            (case readJson E w (dir @ ''/package.json'') of
               Some pkg \<Rightarrow> (has_dep pkg ''vite'', has_dep pkg ''next'')
             | None \<Rightarrow> (False, False))
      in attempts E dir isVite isNext maxRetry w)"

subsection \<open>The stores and the cleanup sweep\<close>

record PreviewSession =
  sess_id :: string
  port :: nat
  tempDir :: string
  childPid :: int
  startedAt :: nat

record MigrationResult =
  zipPath :: string
  timestamp :: nat

record PlanSession =
  projectRoot :: string
  plan_tempDir :: string
  plan_timestamp :: nat

text \<open>
  A JavaScript \<open>Map\<close> iterates in insertion order: the stores are association lists with
  \<open>map_of\<close> for \<open>get\<close>, \<open>AList.update\<close> for \<open>set\<close> and \<open>AList.delete\<close> for \<open>delete\<close>.
\<close>

record stores =
  migrationResults :: "(string \<times> MigrationResult) list"
  planSessions :: "(string \<times> PlanSession) list"
  diagnoseSessions :: "(string \<times> PlanSession) list"
  previewSessions :: "(string \<times> PreviewSession) list"

definition CLEANUP_INTERVAL :: nat where
  "CLEANUP_INTERVAL = 10 * 60 * 1000"

text \<open>
  One \<open>for (const [id, r] of store)\<close> of the sweep:
  \<open>if (now - r.timestamp > CLEANUP_INTERVAL) { fs.remove(path).catch(() => {}); store.delete(id); }\<close>
\<close>

fun sweep_store ::
  "environment \<Rightarrow> ('v \<Rightarrow> string) \<Rightarrow> ('v \<Rightarrow> nat) \<Rightarrow> nat \<Rightarrow> (string \<times> 'v) list \<Rightarrow> world
    \<Rightarrow> (string \<times> 'v) list \<times> world" where
  "sweep_store E path_of time_of t [] w = ([], w)"
| "sweep_store E path_of time_of t ((k, v) # kvs) w =
     (if int t - int (time_of v) > int CLEANUP_INTERVAL then
        sweep_store E path_of time_of t kvs (snd (fs_remove E (path_of v) w))
      else (let (kept, w1) = sweep_store E path_of time_of t kvs w in ((k, v) # kept, w1)))"

text \<open>The callback of \<open>setInterval(..., CLEANUP_INTERVAL)\<close>.\<close>

definition cleanup_sweep :: "environment \<Rightarrow> stores \<times> world \<Rightarrow> stores \<times> world" where
  "cleanup_sweep E sw =
     (let (s, w) = sw;
          t = now w;
          (ms, w1) = sweep_store E zipPath timestamp t (migrationResults s) w;
          (ps, w2) = sweep_store E plan_tempDir plan_timestamp t (planSessions s) w1;
          (ds, w3) = sweep_store E plan_tempDir plan_timestamp t (diagnoseSessions s) w2
      in (s\<lparr>migrationResults := ms, planSessions := ps, diagnoseSessions := ds\<rparr>, w3))"

subsection \<open>The preview routes\<close>

datatype jvalue = JBool bool | JString string | JNumber int

datatype body = Json "(string \<times> jvalue) list" | Text string

record response =
  http_status :: nat
  body :: body

text \<open>
  \<^verbatim>\<open>
  app.delete("/api/preview/:id", async (req, res) => {
    const id = req.params.id;
    const sess = previewSessions.get(id);
    if (!sess) return res.status(404).json({ ok: false, error: "Preview not found" });
    try { process.kill(sess.childPid, "SIGTERM"); } catch {}
    previewSessions.delete(id);
    await fs.remove(sess.tempDir).catch(() => {});
    res.json({ ok: true }); });
  \<close>
  \<open>Inl\<close> would be an exception leaving the handler.
\<close>

definition delete_preview ::
  "environment \<Rightarrow> string \<Rightarrow> stores \<times> world \<Rightarrow> (error + response) \<times> stores \<times> world" where
  "delete_preview E i sw =
     (let (s, w) = sw in
      case map_of (previewSessions s) i of
        None \<Rightarrow>
          (Inr \<lparr>http_status = 404,
                body = Json [(''ok'', JBool False), (''error'', JString ''Preview not found'')]\<rparr>, s, w)
      | Some sess \<Rightarrow>
          (let w1 = snd (process_kill E (childPid sess) ''SIGTERM'' w);
               s1 = s\<lparr>previewSessions := AList.delete i (previewSessions s)\<rparr>;
               w2 = snd (fs_remove E (tempDir sess) w1)
           in (Inr \<lparr>http_status = 200, body = Json [(''ok'', JBool True)]\<rparr>, s1, w2)))"

subsection \<open>The reverse proxy router\<close>

record request =
  req_path :: string
  referer :: "string option"
  referrer :: "string option"

text \<open>
  What a middleware does with a request: answers it, hands it to the proxy for a target
  with a path, or calls \<open>next()\<close>.
\<close>

datatype routed = Respond response | ProxyTo string string | Next

text \<open>The character class \<open>[0-9a-f-]\<close>.\<close>

definition hexdash :: "char \<Rightarrow> bool" where
  "hexdash c = (c \<in> set ''0123456789abcdef-'')"

text \<open>
  \<open>ref.match(/\/preview\/([0-9a-f-]{36})/)\<close>: the group of the leftmost match, or
  \<open>None\<close> for \<open>null\<close>. \<open>match_here\<close> is the pattern tried at the start of a string.
\<close>

definition match_here :: "string \<Rightarrow> string option" where
  "match_here s =
     (let cand = take 36 (drop 9 s)
      in if prefix ''/preview/'' s \<and> length cand = 36 \<and> list_all hexdash cand
         then Some cand else None)"

fun match_preview :: "string \<Rightarrow> string option" where
  "match_preview [] = None"
| "match_preview (c # cs) =
     (case match_here (c # cs) of
        Some i \<Rightarrow> Some i
      | None \<Rightarrow> match_preview cs)"

text \<open>\<open>/^\/(@vite|src|node_modules|__vite_ping)/.test(req.path)\<close>\<close>

definition absAsset :: "string \<Rightarrow> bool" where
  "absAsset p = (prefix ''/@vite'' p \<or> prefix ''/src'' p \<or> prefix ''/node_modules'' p
                  \<or> prefix ''/__vite_ping'' p)"

text \<open>\<open>req.headers.referer || req.headers.referrer || ""\<close>\<close>

definition ref_header :: "request \<Rightarrow> string" where
  "ref_header r =
     (case referer r of
        Some a \<Rightarrow> (if a \<noteq> [] then a else (case referrer r of Some b \<Rightarrow> b | None \<Rightarrow> []))
      | None \<Rightarrow> (case referrer r of Some b \<Rightarrow> b | None \<Rightarrow> []))"

text \<open>The Referer middleware; the absolute path is forwarded as it is.\<close>

definition referer_proxy :: "(string \<times> PreviewSession) list \<Rightarrow> request \<Rightarrow> routed" where
  "referer_proxy sessions r =
     (case match_preview (ref_header r) of
        Some i \<Rightarrow>
          (if absAsset (req_path r) then
             (case map_of sessions i of
                None \<Rightarrow> Respond \<lparr>http_status = 404, body = Text ''Preview session not found''\<rparr>
              | Some sess \<Rightarrow> ProxyTo (''http://127.0.0.1:'' @ String_nat (port sess)) (req_path r))
           else Next)
      | None \<Rightarrow> Next)"

text \<open>
  Express matches the mount path of \<open>app.use("/preview/:id", ...)\<close> with the regular
  expression \<open>/^\/preview\/(?:([^\/]+?))\/?(?=\/|$)/i\<close>: the first nine characters are
  \<open>/preview/\<close> in any letter case, and the parameter is the non-empty run of characters
  up to the next \<open>/\<close>.
\<close>

definition lower_char :: "char \<Rightarrow> char" where
  "lower_char c =
     (case map_of (zip ''ABCDEFGHIJKLMNOPQRSTUVWXYZ'' ''abcdefghijklmnopqrstuvwxyz'') c of
        Some d \<Rightarrow> d
      | None \<Rightarrow> c)"

definition mount_match :: "string \<Rightarrow> string option" where
  "mount_match p =
     (if map lower_char (take 9 p) = ''/preview/'' then
        (let seg = takeWhile (\<lambda>c. c \<noteq> CHR ''/'') (drop 9 p)
         in if seg = [] then None else Some seg)
      else None)"

text \<open>
  \<open>decodeURIComponent\<close>, with a string standing for its UTF-8 bytes. An escape \<open>%XX\<close>
  below 128 is that character; a lead byte announces one to three continuation escapes,
  and the bytes must encode a code point in its shortest form, outside the surrogates and
  at most \<open>0x10FFFF\<close>. \<open>None\<close> is the \<open>URIError\<close>.
\<close>

definition hex_digit :: "char \<Rightarrow> nat option" where
  "hex_digit c =
     map_of (zip ''0123456789abcdefABCDEF''
               [0, 1, 2, 3, 4, 5, 6, 7, 8, 9, 10, 11, 12, 13, 14, 15, 10, 11, 12, 13, 14, 15]) c"

fun escape :: "string \<Rightarrow> (nat \<times> string) option" where
  "escape (p # a # b # rest) =
     (if p = CHR ''%'' then
        (case hex_digit a of
           Some x \<Rightarrow> (case hex_digit b of Some y \<Rightarrow> Some (16 * x + y, rest) | None \<Rightarrow> None)
         | None \<Rightarrow> None)
      else None)"
| "escape s = None"

fun continuation :: "nat \<Rightarrow> string \<Rightarrow> (nat list \<times> string) option" where
  "continuation 0 s = Some ([], s)"
| "continuation (Suc n) s =
     (case escape s of
        Some (b, rest) \<Rightarrow>
          (if 128 \<le> b \<and> b < 192 then
             (case continuation n rest of
                Some (bs, rest2) \<Rightarrow> Some (b # bs, rest2)
              | None \<Rightarrow> None)
           else None)
      | None \<Rightarrow> None)"

text \<open>The number of continuation bytes a lead byte announces; 0 for a byte that is no lead.\<close>

definition continuations_of :: "nat \<Rightarrow> nat" where
  "continuations_of b =
     (if 192 \<le> b \<and> b < 224 then 1 else if 224 \<le> b \<and> b < 240 then 2
      else if 240 \<le> b \<and> b < 248 then 3 else 0)"

definition code_point :: "nat \<Rightarrow> nat list \<Rightarrow> nat" where
  "code_point b bs = foldl (\<lambda>a c. a * 64 + (c - 128)) (b mod 2 ^ (6 - length bs)) bs"

definition shortest_form :: "nat \<Rightarrow> nat \<Rightarrow> bool" where
  "shortest_form n cp =
     (if n = 1 then 128 \<le> cp
      else if n = 2 then 2048 \<le> cp \<and> \<not> (55296 \<le> cp \<and> cp \<le> 57343)
      else 65536 \<le> cp \<and> cp \<le> 1114111)"

lemma escape_shorter: "escape s = Some (b, rest) \<Longrightarrow> length rest < length s"
  by (cases s rule: escape.cases) (auto split: if_splits option.splits)

lemma continuation_shorter: "continuation n s = Some (bs, rest) \<Longrightarrow> length rest \<le> length s"
proof (induction n arbitrary: s bs rest)
  case 0
  then show ?case by simp
next
  case (Suc n)
  from Suc.prems obtain b r1 bs1 where e: "escape s = Some (b, r1)"
    and c: "continuation n r1 = Some (bs1, rest)"
    by (auto split: option.splits if_splits)
  from escape_shorter[OF e] Suc.IH[OF c] show ?case by simp
qed

function decodeURIComponent :: "string \<Rightarrow> string option" where
  "decodeURIComponent [] = Some []"
| "decodeURIComponent (c # cs) =
     (if c \<noteq> CHR ''%'' then map_option ((#) c) (decodeURIComponent cs)
      else
        (case escape (c # cs) of
           None \<Rightarrow> None
         | Some (b, rest) \<Rightarrow>
             (if b < 128 then map_option ((#) (char_of b)) (decodeURIComponent rest)
              else if continuations_of b = 0 then None
              else
                (case continuation (continuations_of b) rest of
                   None \<Rightarrow> None
                 | Some (bs, rest2) \<Rightarrow>
                     (if shortest_form (continuations_of b) (code_point b bs)
                      then map_option ((@) (map char_of (b # bs))) (decodeURIComponent rest2)
                      else None)))))"
  by pat_completeness auto
termination
  apply (relation "measure length")
     apply simp
    apply simp
   apply (auto dest!: escape_shorter continuation_shorter)
  done

declare decodeURIComponent.simps(2) [simp del]

text \<open>
  Express decodes the parameter of a matched layer:
  \<^verbatim>\<open>
  if (typeof val !== 'string' || val.length === 0) return val;
  try { return decodeURIComponent(val); }
  catch (err) { if (err instanceof URIError) {
      err.message = 'Failed to decode param \'' + val + '\''; err.status = 400; }
    throw err; }
  \<close>
  The error makes the layer fail to match; Express passes it on to the error middleware.
\<close>

definition decode_param :: "string \<Rightarrow> error + string" where
  "decode_param val =
     (if val = [] then Inr val
      else (case decodeURIComponent val of
              Some s \<Rightarrow> Inr s
            | None \<Rightarrow> Inl (Error (''Failed to decode param '' @ [CHR 0x27] @ val @ [CHR 0x27]))))"

text \<open>
  \<open>if (prefix && path.startsWith(prefix)) return path.slice(prefix.length) || "/"; return path;\<close>
  An undefined prefix is the empty one.
\<close>

definition pathRewrite :: "string \<Rightarrow> string \<Rightarrow> string" where
  "pathRewrite pfx p =
     (if pfx \<noteq> [] \<and> prefix pfx p then
        (let rest = drop (length pfx) p in if rest = [] then ''/'' else rest)
      else p)"

text \<open>
  The mount \<open>app.use("/preview/:id", ...)\<close>: its handler, then the proxy with the target
  \<open>router\<close> gives and the path \<open>pathRewrite\<close> gives. \<open>Inl\<close> is the error passed to
  the error middleware.
\<close>

definition preview_mount :: "(string \<times> PreviewSession) list \<Rightarrow> request \<Rightarrow> error + routed" where
  "preview_mount sessions r =
     (case mount_match (req_path r) of
        None \<Rightarrow> Inr Next
      | Some seg \<Rightarrow>
          (case decode_param seg of
             Inl err \<Rightarrow> Inl err
           | Inr i \<Rightarrow>
               (case map_of sessions i of
                  None \<Rightarrow> Inr (Respond \<lparr>http_status = 404, body = Text ''Preview not found or stopped''\<rparr>)
                | Some sess \<Rightarrow>
                    Inr (ProxyTo (''http://127.0.0.1:'' @ String_nat (port sess))
                           (pathRewrite (''/preview/'' @ i) (req_path r))))))"

text \<open>
  The error middleware, for an error that has neither \<open>type\<close> nor \<open>code\<close> (those of the
  body parser and of the upload middleware have):
  \<open>res.status(500).json({ error: err?.message || "Something went wrong!" })\<close>
\<close>

definition error_middleware :: "error \<Rightarrow> response" where
  "error_middleware err =
     (case err of
        Error msg \<Rightarrow>
          \<lparr>http_status = 500,
           body = Json [(''error'', JString (if msg = [] then ''Something went wrong!'' else msg))]\<rparr>)"

text \<open>
  The two middlewares in the order they are registered. After an error of the mount only
  the error middleware runs (the stop route in between is skipped).
\<close>

definition router :: "(string \<times> PreviewSession) list \<Rightarrow> request \<Rightarrow> routed" where
  "router sessions r =
     (case referer_proxy sessions r of
        Next \<Rightarrow>
          (case preview_mount sessions r of
             Inl err \<Rightarrow> Respond (error_middleware err)
           | Inr answered \<Rightarrow> answered)
      | answered \<Rightarrow> answered)"

text \<open>
  WebSocket upgrades. For a request with an \<open>Upgrade\<close> header Node emits \<open>upgrade\<close>
  instead of \<open>request\<close> when the server has a listener for that event, and then no
  middleware of the application runs; without a listener the request is an ordinary one.
  A proxy created with \<open>ws: true\<close> adds its listener to the server when the first HTTP
  request passes through it, and the listener forwards every upgrade request to
  \<open>router(req) || target\<close> with the path \<open>pathRewrite\<close> gives. For the proxy of the mount
  \<open>req._previewTarget\<close> and \<open>req._previewPrefix\<close> are undefined there (only the mount's
  handler sets them), so that is \<open>http://127.0.0.1\<close> with the path unchanged; a proxy of
  the Referer middleware has the port of its session as target.
\<close>

datatype incoming = HttpRequest request | UpgradeRequest request

datatype ws_listener = MountProxy | RefererProxy string

definition forward_upgrade :: "ws_listener \<Rightarrow> request \<Rightarrow> routed" where
  "forward_upgrade l r =
     (case l of
        MountProxy \<Rightarrow> ProxyTo ''http://127.0.0.1'' (pathRewrite [] (req_path r))
      | RefererProxy t \<Rightarrow> ProxyTo t (req_path r))"

text \<open>The upgrade listeners after an HTTP request: a proxy it passed through has one.\<close>

definition subscribe ::
  "ws_listener list \<Rightarrow> (string \<times> PreviewSession) list \<Rightarrow> request \<Rightarrow> ws_listener list" where
  "subscribe listeners sessions r =
     (case referer_proxy sessions r of
        ProxyTo t q \<Rightarrow> listeners @ [RefererProxy t]
      | Respond a \<Rightarrow> listeners
      | Next \<Rightarrow>
          (case preview_mount sessions r of
             Inr (ProxyTo t q) \<Rightarrow>
               (if MountProxy \<in> set listeners then listeners else listeners @ [MountProxy])
           | _ \<Rightarrow> listeners))"

text \<open>What the server does with an incoming request, given the upgrade listeners it has.\<close>

definition dispatch ::
  "ws_listener list \<Rightarrow> (string \<times> PreviewSession) list \<Rightarrow> incoming \<Rightarrow> routed list" where
  "dispatch listeners sessions inc =
     (case inc of
        HttpRequest r \<Rightarrow> [router sessions r]
      | UpgradeRequest r \<Rightarrow>
          (if listeners = [] then [router sessions r]
           else map (\<lambda>l. forward_upgrade l r) listeners))"


subsection \<open>Concrete environments and inputs\<close>

definition world0 :: world where
  "world0 = \<lparr>now = 0, trace = []\<rparr>"

text \<open>
  A machine where every port binds, every request is answered 200 after 5 ms and every
  child reports port 5173 as the one it bound; its URL library throws for every base
  that \<open>new_URL\<close> leaves to it.
\<close>

definition env_idle :: environment where
  "env_idle = \<lparr>platform = ''linux'', process_env = [], bindable = (\<lambda>w p. True),
     respond = (\<lambda>w url m. (Responds 200, 5)), child_pid = (\<lambda>w c. Some 4242),
     bound_port = (\<lambda>w c. 5173), kill_ok = (\<lambda>w p. True), remove_ok = (\<lambda>w p. True),
     readJson = (\<lambda>w p. None), url_resolve = (\<lambda>p base. None)\<rparr>"

text \<open>Port 5100 is held by another process.\<close>

definition env_busy :: environment where
  "env_busy = env_idle\<lparr>bindable := (\<lambda>w p. p \<noteq> 5100)\<rparr>"

text \<open>No port binds.\<close>

definition env_full :: environment where
  "env_full = env_idle\<lparr>bindable := (\<lambda>w p. False)\<rparr>"

text \<open>Port 5100 binds until time 10, when a dev server takes it.\<close>

definition env_boot :: environment where
  "env_boot = env_idle\<lparr>bindable := (\<lambda>w p. p \<noteq> 5100 \<or> now w < 10)\<rparr>"

definition world_later :: world where
  "world_later = \<lparr>now = 10, trace = []\<rparr>"

text \<open>
  Stores holding one plan session and one preview session, both created at time 0, and a
  world one hour later (the sweep's limit is ten minutes).
\<close>

definition no_stores :: stores where
  "no_stores = \<lparr>migrationResults = [], planSessions = [], diagnoseSessions = [], previewSessions = []\<rparr>"

definition sess1 :: PreviewSession where
  "sess1 = \<lparr>sess_id = ''11111111-1111-1111-1111-111111111111'', port = 5100,
     tempDir = ''temp/preview/t1'', childPid = 4242, startedAt = 0\<rparr>"

definition plan1 :: PlanSession where
  "plan1 = \<lparr>projectRoot = ''temp/extracted/e1'', plan_tempDir = ''temp/extracted/e1'', plan_timestamp = 0\<rparr>"

definition stores1 :: stores where
  "stores1 = no_stores\<lparr>planSessions := [(''p1'', plan1)],
       previewSessions := [(''11111111-1111-1111-1111-111111111111'', sess1)]\<rparr>"

definition world_late :: world where
  "world_late = \<lparr>now = 3600000, trace = []\<rparr>"

text \<open>The two answers of the stop route.\<close>

definition ok_response :: response where
  "ok_response = \<lparr>http_status = 200, body = Json [(''ok'', JBool True)]\<rparr>"

definition not_found_response :: response where
  "not_found_response = \<lparr>http_status = 404,
      body = Json [(''ok'', JBool False), (''error'', JString ''Preview not found'')]\<rparr>"

text \<open>Requests: an asset whose Referer names an id nobody registered, an asset whose
  Referer names the session of \<open>stores1\<close>, and a prefixed path with an unknown id.\<close>

definition req_orphan :: request where
  "req_orphan = \<lparr>req_path = ''/src/main.tsx'',
      referer = Some ''http://localhost:5002/preview/00000000-0000-0000-0000-000000000000/'',
      referrer = None\<rparr>"


definition req_prefixed :: request where
  "req_prefixed = \<lparr>req_path = ''/preview/00000000-0000-0000-0000-000000000000/index.html'',
      referer = None, referrer = None\<rparr>"

text \<open>A page of the session of \<open>stores1\<close>, and requests whose mount parameter is escaped:
  one that does not decode, and one that decodes to the id of that session.\<close>

definition req_live :: request where
  "req_live = \<lparr>req_path = ''/preview/11111111-1111-1111-1111-111111111111/'',
      referer = None, referrer = None\<rparr>"

definition req_undecodable :: request where
  "req_undecodable = \<lparr>req_path = ''/preview/%zz/x'', referer = None, referrer = None\<rparr>"

definition req_escaped :: request where
  "req_escaped = \<lparr>req_path = ''/PREVIEW/%311111111-1111-1111-1111-111111111111/x'',
      referer = None, referrer = None\<rparr>"


text \<open>The URLs of one tick: those of the candidate paths for which the constructor does
  not throw, in order.\<close>

definition urls :: "environment \<Rightarrow> string \<Rightarrow> string list \<Rightarrow> string list" where
  "urls E base ps = List.map_filter (\<lambda>p. new_URL E p base) ps"

text \<open>The requests of one tick in which no request is answered ok, and the sleep after it.\<close>

definition failed_tick :: "environment \<Rightarrow> string \<Rightarrow> nat \<Rightarrow> string list \<Rightarrow> event list" where
  "failed_tick E base intervalMs ps =
     concat (map (\<lambda>u. [Fetch u HEAD (min 2000 intervalMs), Fetch u GET (min 2000 intervalMs)])
               (urls E base ps))
     @ [Sleep intervalMs]"

text \<open>An event of the prober: a request to one of the URLs of a tick, or the sleep between
  two ticks.\<close>

definition tick_event :: "environment \<Rightarrow> string \<Rightarrow> nat \<Rightarrow> event \<Rightarrow> bool" where
  "tick_event E base intervalMs e =
     (case e of
        Fetch u m t \<Rightarrow> u \<in> set (urls E base paths) \<and> t = min 2000 intervalMs
      | Sleep d \<Rightarrow> d = intervalMs
      | _ \<Rightarrow> False)"


text \<open>A Next project (\<open>next\<close> among the dependencies) whose dev server never answers:
  every request hangs until it is aborted.\<close>

definition next_pkg :: package_json where
  "next_pkg = \<lparr>dependencies = Some [(''next'', ''^14.2.5''), (''react'', ''^18.3.1'')],
     devDependencies = None\<rparr>"

definition env_next_down :: environment where
  "env_next_down = env_idle\<lparr>respond := (\<lambda>w url m. (NoResponse, 5000)),
     readJson := (\<lambda>w path. if path = ''/app/package.json'' then Some next_pkg else None)\<rparr>"

text \<open>Vocabulary for traces of the launcher.\<close>

definition is_control :: "event \<Rightarrow> bool" where
  "is_control e = (case e of Spawn c child \<Rightarrow> True | Kill pid sig \<Rightarrow> True | _ \<Rightarrow> False)"

definition is_Close :: "event \<Rightarrow> bool" where
  "is_Close e = (case e of Close p \<Rightarrow> True | _ \<Rightarrow> False)"

text \<open>An event of the prober against the origin \<open>base\<close>: a request to \<open>base\<close> followed
  by a candidate path, or the sleep between two ticks.\<close>

definition probe_event :: "string \<Rightarrow> nat \<Rightarrow> event \<Rightarrow> bool" where
  "probe_event base intervalMs e =
     (case e of
        Fetch u m t \<Rightarrow> u \<in> set (map (\<lambda>q. base @ q) paths) \<and> t = min 2000 intervalMs
      | Sleep d \<Rightarrow> d = intervalMs
      | _ \<Rightarrow> False)"

text \<open>An event of one launch attempt after its port was allocated: a spawn, a kill, the
  300 ms pause, or an event of the prober against the allocated port.\<close>

definition attempt_event :: "string \<Rightarrow> event \<Rightarrow> bool" where
  "attempt_event base e = (is_control e \<or> e = Sleep 300 \<or> probe_event base 600 e)"

text \<open>The \<open>spawn\<close> call the launcher makes for a strategy.\<close>

definition call_of :: "environment \<Rightarrow> string \<Rightarrow> strategy \<Rightarrow> spawn_call" where
  "call_of E dir t =
     \<lparr>sp_cmd = (if platform E = ''win32'' then ''npm.cmd'' else ''npm''), sp_args = args t,
      sp_cwd = dir, sp_env = (case env t of Some vars \<Rightarrow> vars | None \<Rightarrow> process_env E),
      sp_stdio = Inherit\<rparr>"

text \<open>
  The steps of one strategy \<open>t\<close> of an attempt on port \<open>p\<close>, started in world \<open>v\<close>:
  the world after its spawn; its probe, the call of the prober on \<open>http://127.0.0.1:p\<close>
  with the default budget of 20 s and interval of 600 ms; and the world after it was given
  up, its child sent SIGTERM and 300 ms gone by. \<open>before ts j w\<close> is the world in which
  strategy number \<open>j\<close> of \<open>ts\<close> starts when the strategies before it were given up.
\<close>

definition spawned :: "environment \<Rightarrow> string \<Rightarrow> strategy \<Rightarrow> world \<Rightarrow> world" where
  "spawned E dir t v = emit [Spawn (call_of E dir t) (child_pid E v (call_of E dir t))] v"

definition probed :: "environment \<Rightarrow> string \<Rightarrow> nat \<Rightarrow> strategy \<Rightarrow> world \<Rightarrow> bool \<times> world" where
  "probed E dir p t v =
     waitForOkAny E (''http://127.0.0.1:'' @ String_nat p) 20000 600 (spawned E dir t v)"

definition given_up :: "environment \<Rightarrow> string \<Rightarrow> nat \<Rightarrow> strategy \<Rightarrow> world \<Rightarrow> world" where
  "given_up E dir p t v =
     (let u = snd (probed E dir p t v)
      in \<lparr>now = now u + 300,
          trace = trace u @
            [Kill (case child_pid E v (call_of E dir t) of Some pid \<Rightarrow> pid | None \<Rightarrow> - 1) ''SIGTERM'',
             Sleep 300]\<rparr>)"

definition before ::
  "environment \<Rightarrow> string \<Rightarrow> nat \<Rightarrow> strategy list \<Rightarrow> nat \<Rightarrow> world \<Rightarrow> world" where
  "before E dir p ts j w = foldl (\<lambda>v t. given_up E dir p t v) w (take j ts)"

text \<open>The spawns and kills of strategies that did not become healthy, with their children.\<close>

definition failed_runs :: "environment \<Rightarrow> string \<Rightarrow> (strategy \<times> int option) list \<Rightarrow> event list" where
  "failed_runs E dir tcs =
     concat (map (\<lambda>(t, child). [Spawn (call_of E dir t) child,
                                  Kill (case child of Some pid \<Rightarrow> pid | None \<Rightarrow> - 1) ''SIGTERM'']) tcs)"

text \<open>The allocations, spawns and kills of a trace; the spawn calls for \<open>/app\<close> on port
  5100 with the \<open>--port\<close> flag (the first strategy of a Next or unknown project) and with
  \<open>PORT\<close> only (the second strategy of a Next project).\<close>

definition is_launch_step :: "event \<Rightarrow> bool" where
  "is_launch_step e = (is_control e \<or> is_Close e)"

definition port_flag_call :: spawn_call where
  "port_flag_call = \<lparr>sp_cmd = ''npm'', sp_args = [''run'', ''dev'', ''--'', ''--port'', ''5100''],
     sp_cwd = ''/app'', sp_env = [(''PORT'', ''5100'')], sp_stdio = Inherit\<rparr>"

definition port_env_call :: spawn_call where
  "port_env_call = \<lparr>sp_cmd = ''npm'', sp_args = [''run'', ''dev''],
     sp_cwd = ''/app'', sp_env = [(''PORT'', ''5100'')], sp_stdio = Inherit\<rparr>"

text \<open>A spawn whose child writes to the server's own output: nothing is captured.\<close>

definition spawn_inherits :: "event \<Rightarrow> bool" where
  "spawn_inherits e = (case e of Spawn c child \<Rightarrow> sp_stdio c = Inherit | _ \<Rightarrow> True)"

section \<open>Properties\<close>

subsection \<open>The port allocator\<close>

lemma after_failed_Nil: "after_failed [] w = w"
  by (simp add: after_failed_def emit_def)

lemma after_failed_Cons: "after_failed (q # qs) w = after_failed qs (emit [Listen q False] w)"
  by (simp add: after_failed_def emit_def)

lemma tryPorts_Inr:
  "tryPorts E ps w = (Inr p, w') \<longleftrightarrow>
     (\<exists>i<length ps. ps ! i = p \<and> bindable E (after_failed (take i ps) w) p \<and>
        (\<forall>j<i. \<not> bindable E (after_failed (take j ps) w) (ps ! j)) \<and>
        w' = emit [Listen p True, Close p] (after_failed (take i ps) w))"
proof (induction ps arbitrary: w)
  case Nil
  then show ?case by simp
next
  case (Cons a ps)
  show ?case
  proof (cases "bindable E w a")
    case True
    have eq: "tryPorts E (a # ps) w = (Inr a, emit [Listen a True, Close a] w)"
      using True by (simp add: tryPort_def)
    have zero: "i = 0"
      if "\<forall>j<i. \<not> bindable E (after_failed (take j (a # ps)) w) ((a # ps) ! j)" for i
    proof (rule ccontr)
      assume "i \<noteq> 0"
      then have "0 < i" by simp
      with that have "\<not> bindable E (after_failed (take 0 (a # ps)) w) ((a # ps) ! 0)"
        by blast
      with True show False by (simp add: after_failed_Nil)
    qed
    show ?thesis
    proof (intro iffI)
      assume "tryPorts E (a # ps) w = (Inr p, w')"
      then have "(Inr a, emit [Listen a True, Close a] w) = (Inr p :: error + nat, w')"
        unfolding eq .
      then have "p = a" "w' = emit [Listen a True, Close a] w" by auto
      then show "\<exists>i<length (a # ps). (a # ps) ! i = p \<and>
          bindable E (after_failed (take i (a # ps)) w) p \<and>
          (\<forall>j<i. \<not> bindable E (after_failed (take j (a # ps)) w) ((a # ps) ! j)) \<and>
          w' = emit [Listen p True, Close p] (after_failed (take i (a # ps)) w)"
        using True by (intro exI[of _ 0]) (simp add: after_failed_Nil)
    next
      assume "\<exists>i<length (a # ps). (a # ps) ! i = p \<and>
          bindable E (after_failed (take i (a # ps)) w) p \<and>
          (\<forall>j<i. \<not> bindable E (after_failed (take j (a # ps)) w) ((a # ps) ! j)) \<and>
          w' = emit [Listen p True, Close p] (after_failed (take i (a # ps)) w)"
      then obtain i where i: "(a # ps) ! i = p"
        "\<forall>j<i. \<not> bindable E (after_failed (take j (a # ps)) w) ((a # ps) ! j)"
        "w' = emit [Listen p True, Close p] (after_failed (take i (a # ps)) w)"
        by blast
      from zero[OF i(2)] have "i = 0" .
      with i show "tryPorts E (a # ps) w = (Inr p, w')"
        unfolding eq by (auto simp: after_failed_Nil)
    qed
  next
    case False
    have step: "tryPorts E (a # ps) w = tryPorts E ps (emit [Listen a False] w)"
      using False by (simp add: tryPort_def)
    show ?thesis
      unfolding step Cons.IH
    proof (intro iffI; elim exE conjE)
      fix i
      assume i: "i < length ps" "ps ! i = p"
        "bindable E (after_failed (take i ps) (emit [Listen a False] w)) p"
        "\<forall>j<i. \<not> bindable E (after_failed (take j ps) (emit [Listen a False] w)) (ps ! j)"
        "w' = emit [Listen p True, Close p] (after_failed (take i ps) (emit [Listen a False] w))"
      have "\<forall>j<Suc i. \<not> bindable E (after_failed (take j (a # ps)) w) ((a # ps) ! j)"
      proof (intro allI impI)
        fix j
        assume "j < Suc i"
        then show "\<not> bindable E (after_failed (take j (a # ps)) w) ((a # ps) ! j)"
          using False i(4) by (cases j) (auto simp: after_failed_Nil after_failed_Cons)
      qed
      then show "\<exists>i<length (a # ps). (a # ps) ! i = p \<and>
          bindable E (after_failed (take i (a # ps)) w) p \<and>
          (\<forall>j<i. \<not> bindable E (after_failed (take j (a # ps)) w) ((a # ps) ! j)) \<and>
          w' = emit [Listen p True, Close p] (after_failed (take i (a # ps)) w)"
        using i by (intro exI[of _ "Suc i"]) (simp add: after_failed_Cons)
    next
      fix i
      assume i: "i < length (a # ps)" "(a # ps) ! i = p"
        "bindable E (after_failed (take i (a # ps)) w) p"
        "\<forall>j<i. \<not> bindable E (after_failed (take j (a # ps)) w) ((a # ps) ! j)"
        "w' = emit [Listen p True, Close p] (after_failed (take i (a # ps)) w)"
      have "i \<noteq> 0"
      proof
        assume "i = 0"
        with i(2,3) have "bindable E w a" by (simp add: after_failed_Nil)
        with False show False by simp
      qed
      then obtain k where k: "i = Suc k" by (cases i) auto
      have "\<forall>j<k. \<not> bindable E (after_failed (take j ps) (emit [Listen a False] w)) (ps ! j)"
      proof (intro allI impI)
        fix j
        assume "j < k"
        then have "Suc j < i" using k by simp
        from i(4)[rule_format, OF this]
        show "\<not> bindable E (after_failed (take j ps) (emit [Listen a False] w)) (ps ! j)"
          by (simp add: after_failed_Cons)
      qed
      then show "\<exists>i<length ps. ps ! i = p \<and>
          bindable E (after_failed (take i ps) (emit [Listen a False] w)) p \<and>
          (\<forall>j<i. \<not> bindable E (after_failed (take j ps) (emit [Listen a False] w)) (ps ! j)) \<and>
          w' = emit [Listen p True, Close p] (after_failed (take i ps) (emit [Listen a False] w))"
        using i k by (intro exI[of _ k]) (simp add: after_failed_Cons)
    qed
  qed
qed

lemma tryPorts_Inl:
  "tryPorts E ps w = (Inl err, w') \<longleftrightarrow>
     (\<forall>j<length ps. \<not> bindable E (after_failed (take j ps) w) (ps ! j)) \<and>
     err = Error ''No free port found'' \<and> w' = after_failed ps w"
proof (induction ps arbitrary: w)
  case Nil
  then show ?case by (auto simp: after_failed_Nil)
next
  case (Cons a ps)
  show ?case
  proof (cases "bindable E w a")
    case True
    then have "tryPorts E (a # ps) w = (Inr a, emit [Listen a True, Close a] w)"
      by (simp add: tryPort_def)
    moreover have "\<not> (\<forall>j<length (a # ps).
        \<not> bindable E (after_failed (take j (a # ps)) w) ((a # ps) ! j))"
      using True by (auto simp: after_failed_Nil intro!: exI[of _ 0])
    ultimately show ?thesis by simp
  next
    case False
    have step: "tryPorts E (a # ps) w = tryPorts E ps (emit [Listen a False] w)"
      using False by (simp add: tryPort_def)
    have "(\<forall>j<length (a # ps). \<not> bindable E (after_failed (take j (a # ps)) w) ((a # ps) ! j)) \<longleftrightarrow>
          (\<forall>j<length ps. \<not> bindable E (after_failed (take j ps) (emit [Listen a False] w)) (ps ! j))"
      using False by (auto simp: All_less_Suc2 after_failed_Nil after_failed_Cons)
    then show ?thesis
      unfolding step Cons.IH by (simp add: after_failed_Cons)
  qed
qed

lemma getFreePort_Inr:
  "getFreePort E s e w = (Inr p, w') \<longleftrightarrow>
      s \<le> p \<and> p \<le> e \<and> bindable E (after_failed [s..<p] w) p \<and>
      (\<forall>q. s \<le> q \<and> q < p \<longrightarrow> \<not> bindable E (after_failed [s..<q] w) q) \<and>
      w' = emit [Listen p True, Close p] (after_failed [s..<p] w)"
  (is "?L \<longleftrightarrow> ?R")
proof
  have nth: "[s..<Suc e] ! i = s + i" if "i < Suc e - s" for i
    using that by (simp del: upt_Suc)
  have tk: "take i [s..<Suc e] = [s..<s + i]" if "i < Suc e - s" for i
    using that by (simp add: take_upt del: upt_Suc)
  {
    assume ?L
    then obtain i where i: "i < Suc e - s" "[s..<Suc e] ! i = p"
      "bindable E (after_failed (take i [s..<Suc e]) w) p"
      "\<forall>j<i. \<not> bindable E (after_failed (take j [s..<Suc e]) w) ([s..<Suc e] ! j)"
      "w' = emit [Listen p True, Close p] (after_failed (take i [s..<Suc e]) w)"
      unfolding getFreePort_def tryPorts_Inr by (auto simp del: upt_Suc)
    have p: "p = s + i" using i(1,2) nth by simp
    have "\<not> bindable E (after_failed [s..<q] w) q" if "s \<le> q" "q < p" for q
    proof -
      have "q - s < i" using that p by simp
      with i(4) have "\<not> bindable E (after_failed (take (q - s) [s..<Suc e]) w) ([s..<Suc e] ! (q - s))"
        by blast
      moreover have "q - s < Suc e - s" using \<open>q - s < i\<close> i(1) by simp
      ultimately show ?thesis using that nth[of "q - s"] tk[of "q - s"] by simp
    qed
    then show ?R using i p tk[of i] by auto
  }
  {
    assume R: ?R
    let ?i = "p - s"
    have lt: "?i < Suc e - s" using R by auto
    have "\<forall>j<?i. \<not> bindable E (after_failed (take j [s..<Suc e]) w) ([s..<Suc e] ! j)"
    proof (intro allI impI)
      fix j
      assume "j < ?i"
      then have "j < Suc e - s" "s \<le> s + j" "s + j < p" using lt by auto
      then show "\<not> bindable E (after_failed (take j [s..<Suc e]) w) ([s..<Suc e] ! j)"
        using R nth[of j] tk[of j] by simp
    qed
    then show ?L
      unfolding getFreePort_def tryPorts_Inr
      using R lt nth[of ?i] tk[of ?i]
      by (intro exI[of _ ?i]) (simp del: upt_Suc)
  }
qed

lemma getFreePort_Inl:
  "getFreePort E s e w = (Inl err, w') \<longleftrightarrow>
      (\<forall>q. s \<le> q \<and> q \<le> e \<longrightarrow> \<not> bindable E (after_failed [s..<q] w) q) \<and>
      err = Error ''No free port found'' \<and> w' = after_failed [s..<Suc e] w"
proof -
  have nth: "[s..<Suc e] ! i = s + i" if "i < Suc e - s" for i
    using that by (simp del: upt_Suc)
  have tk: "take i [s..<Suc e] = [s..<s + i]" if "i < Suc e - s" for i
    using that by (simp add: take_upt del: upt_Suc)
  have "(\<forall>j<length [s..<Suc e]. \<not> bindable E (after_failed (take j [s..<Suc e]) w) ([s..<Suc e] ! j))
      \<longleftrightarrow> (\<forall>q. s \<le> q \<and> q \<le> e \<longrightarrow> \<not> bindable E (after_failed [s..<q] w) q)"
    (is "?A \<longleftrightarrow> ?B")
  proof
    assume A: ?A
    show ?B
    proof (intro allI impI)
      fix q
      assume q: "s \<le> q \<and> q \<le> e"
      then have "q - s < Suc e - s" by auto
      with A nth[of "q - s"] tk[of "q - s"] q show "\<not> bindable E (after_failed [s..<q] w) q"
        by (auto simp del: upt_Suc)
    qed
  next
    assume B: ?B
    show ?A
    proof (intro allI impI)
      fix j
      assume "j < length [s..<Suc e]"
      then have j: "j < Suc e - s" by (simp del: upt_Suc)
      then have "s \<le> s + j \<and> s + j \<le> e" by auto
      with B have "\<not> bindable E (after_failed [s..<s + j] w) (s + j)" by blast
      then show "\<not> bindable E (after_failed (take j [s..<Suc e]) w) ([s..<Suc e] ! j)"
        using nth[OF j] tk[OF j] by simp
    qed
  qed
  then show ?thesis
    unfolding getFreePort_def tryPorts_Inl by simp
qed

text \<open>
  C8. \<open>getFreePort(start, end)\<close> tries to bind the ports of the range in ascending
  order; it returns the first port that binds, having closed its listener at once, and
  it fails with the error "No free port found" exactly when no port of the range binds.
  The trace is the failed binds of the ports before the returned one, then its
  successful bind and the close.
\<close>

theorem getFreePort_first_bindable:
  "(getFreePort E s e w = (Inr p, w') \<longleftrightarrow>
      s \<le> p \<and> p \<le> e \<and> bindable E (after_failed [s..<p] w) p \<and>
      (\<forall>q. s \<le> q \<and> q < p \<longrightarrow> \<not> bindable E (after_failed [s..<q] w) q) \<and>
      w' = emit [Listen p True, Close p] (after_failed [s..<p] w)) \<and>
   (getFreePort E s e w = (Inl err, w') \<longleftrightarrow>
      (\<forall>q. s \<le> q \<and> q \<le> e \<longrightarrow> \<not> bindable E (after_failed [s..<q] w) q) \<and>
      err = Error ''No free port found'' \<and> w' = after_failed [s..<Suc e] w)"
  using getFreePort_Inr [of E s e w p w'] getFreePort_Inl [of E s e w err w'] by blast

theorem getFreePort_first_bindable_witness:
  "getFreePort env_busy 5100 5199 world0 =
     (Inr 5101, emit [Listen 5101 True, Close 5101] (after_failed [5100] world0)) \<and>
   getFreePort env_full 5100 5101 world0 =
     (Inl (Error ''No free port found''), after_failed [5100, 5101] world0)"
proof -
  have a: "[5100..<5101] = [5100::nat]"
    by (simp add: upt_rec)
  have b: "[5100..<Suc 5101] = [5100::nat, 5101]"
    by (simp add: upt_rec)
  have c: "\<And>q::nat. 5100 \<le> q \<and> q < 5101 \<longleftrightarrow> q = 5100"
    by auto
  have "getFreePort env_busy 5100 5199 world0 =
     (Inr 5101, emit [Listen 5101 True, Close 5101] (after_failed [5100] world0))"
    using getFreePort_first_bindable [where E = env_busy and s = 5100 and e = 5199
        and w = world0 and p = 5101
        and w' = "emit [Listen 5101 True, Close 5101] (after_failed [5100] world0)"]
    by (simp add: a c env_busy_def)
  moreover have "getFreePort env_full 5100 5101 world0 =
     (Inl (Error ''No free port found''), after_failed [5100, 5101] world0)"
    using getFreePort_first_bindable [where E = env_full and s = 5100 and e = 5101
        and w = world0 and err = "Error ''No free port found''"
        and w' = "after_failed [5100, 5101] world0"]
    by (simp add: b env_full_def)
  ultimately show ?thesis by simp
qed

lemma now_after_failed: "now (after_failed qs w) = now w"
  by (simp add: after_failed_def emit_def)

text \<open>
  C3, as stated, fails: the allocator keeps no reservation. Two calls of
  \<open>getFreePort\<close> made back to back, before any dev server has bound a port, both
  return 5100.
\<close>

theorem getFreePort_same_port_counterexample:
  "fst (getFreePort env_idle 5100 5199 world0) = Inr 5100 \<and>
   fst (getFreePort env_idle 5100 5199 (snd (getFreePort env_idle 5100 5199 world0))) = Inr 5100"
proof -
  have "getFreePort env_idle 5100 5199 w = (Inr 5100, emit [Listen 5100 True, Close 5100] w)" for w
    by (simp add: getFreePort_Inr after_failed_Nil env_idle_def)
  then show ?thesis by simp
qed

text \<open>
  C3, amended. The allocator returns the lowest port of the range that binds at the moment
  of the call and records nothing. After a call that returned port \<open>p\<close>, a second call
  returns \<open>p\<close> again exactly when \<open>p\<close> still binds at the moment the second call tries it
  and no lower port of the range binds then. So the two ports are distinct when \<open>p\<close> no
  longer binds at that moment (the first dev server has bound it), and they are the same
  when every port of the range up to \<open>p\<close> binds for the second call as it did for the
  first, as it is for two calls back to back on an unchanged machine.
\<close>

theorem getFreePort_no_reservation:
  assumes "getFreePort E s e w1 = (Inr p, w1')"
  shows "(fst (getFreePort E s e w2) = Inr p \<longleftrightarrow>
            bindable E (after_failed [s..<p] w2) p \<and>
            (\<forall>r. s \<le> r \<and> r < p \<longrightarrow> \<not> bindable E (after_failed [s..<r] w2) r)) \<and>
         (\<not> bindable E (after_failed [s..<p] w2) p \<longrightarrow> fst (getFreePort E s e w2) \<noteq> Inr p) \<and>
         ((\<forall>r. s \<le> r \<and> r \<le> p \<longrightarrow>
              bindable E (after_failed [s..<r] w2) r = bindable E (after_failed [s..<r] w1) r) \<longrightarrow>
            getFreePort E s e w2 = (Inr p, emit [Listen p True, Close p] (after_failed [s..<p] w2)))"
proof -
  have fst_iff: "fst (getFreePort E s e w2) = Inr p \<longleftrightarrow> (\<exists>w'. getFreePort E s e w2 = (Inr p, w'))"
    by (cases "getFreePort E s e w2") auto
  from assms have first: "s \<le> p" "p \<le> e" "bindable E (after_failed [s..<p] w1) p"
    "\<forall>r. s \<le> r \<and> r < p \<longrightarrow> \<not> bindable E (after_failed [s..<r] w1) r"
    by (simp_all add: getFreePort_Inr)
  have a: "fst (getFreePort E s e w2) = Inr p \<longleftrightarrow>
            bindable E (after_failed [s..<p] w2) p \<and>
            (\<forall>r. s \<le> r \<and> r < p \<longrightarrow> \<not> bindable E (after_failed [s..<r] w2) r)"
    unfolding fst_iff getFreePort_Inr using first(1,2) by simp
  have b: "\<not> bindable E (after_failed [s..<p] w2) p \<longrightarrow> fst (getFreePort E s e w2) \<noteq> Inr p"
    using a by simp
  have c: "getFreePort E s e w2 = (Inr p, emit [Listen p True, Close p] (after_failed [s..<p] w2))"
    if same: "\<forall>r. s \<le> r \<and> r \<le> p \<longrightarrow>
       bindable E (after_failed [s..<r] w2) r = bindable E (after_failed [s..<r] w1) r"
  proof -
    have "bindable E (after_failed [s..<p] w2) p"
      using same first(1,3) by simp
    moreover have "\<forall>r. s \<le> r \<and> r < p \<longrightarrow> \<not> bindable E (after_failed [s..<r] w2) r"
      using same first(4) by simp
    ultimately show ?thesis
      unfolding getFreePort_Inr using first(1,2) by simp
  qed
  from a b c show ?thesis by blast
qed

theorem getFreePort_no_reservation_witness:
  "fst (getFreePort env_boot 5100 5199 world_later) \<noteq> Inr 5100 \<and>
   getFreePort env_boot 5100 5199 (emit [Listen 5100 True, Close 5100] world0) =
     (Inr 5100, emit [Listen 5100 True, Close 5100] (emit [Listen 5100 True, Close 5100] world0))"
proof -
  have h: "getFreePort env_boot 5100 5199 world0 = (Inr 5100, emit [Listen 5100 True, Close 5100] world0)"
    by (simp add: getFreePort_Inr after_failed_Nil env_boot_def world0_def)
  have late: "\<not> bindable env_boot (after_failed [5100..<5100] world_later) 5100"
    by (simp add: after_failed_Nil env_boot_def world_later_def)
  have same: "\<forall>r. 5100 \<le> r \<and> r \<le> 5100 \<longrightarrow>
      bindable env_boot (after_failed [5100..<r] (emit [Listen 5100 True, Close 5100] world0)) r
        = bindable env_boot (after_failed [5100..<r] world0) r"
    by (simp add: env_boot_def now_after_failed now_emit)
  note inst = getFreePort_no_reservation [OF h]
  have "fst (getFreePort env_boot 5100 5199 world_later) \<noteq> Inr 5100"
    using inst [of world_later, THEN conjunct2, THEN conjunct1] late by simp
  moreover have "getFreePort env_boot 5100 5199 (emit [Listen 5100 True, Close 5100] world0) =
     (Inr 5100, emit [Listen 5100 True, Close 5100] (emit [Listen 5100 True, Close 5100] world0))"
    using inst [of "emit [Listen 5100 True, Close 5100] world0", THEN conjunct2, THEN conjunct2] same
    by (simp add: after_failed_Nil)
  ultimately show ?thesis by simp
qed

subsection \<open>The cleanup sweep and the stop route\<close>

text \<open>
  C1. The periodic sweep should reap a preview session older than its time to live:
  signal its process, delete its directory and drop its entry. The sweep of the code
  visits \<open>migrationResults\<close>, \<open>planSessions\<close> and \<open>diagnoseSessions\<close> only. Run one hour
  after a plan session and a preview session were created, it removes the plan session
  and its directory, and leaves the preview session registered, with no signal sent and
  its directory in place.
\<close>

theorem cleanup_sweep_leaves_preview:
  "cleanup_sweep env_idle (stores1, world_late) =
     (stores1\<lparr>planSessions := []\<rparr>, world_late\<lparr>trace := [Remove ''temp/extracted/e1'']\<rparr>)"
  by (simp add: cleanup_sweep_def stores1_def no_stores_def world_late_def plan1_def
      CLEANUP_INTERVAL_def fs_remove_def emit_def)

text \<open>
  C4. Stopping a registered session answers ok, having sent SIGTERM to the session's
  process, removed its directory and dropped its entry; stopping it again answers
  not-found and changes nothing; stopping an unknown id answers not-found. No call
  throws (every result is \<open>Inr\<close>), whatever the signal and the removal do.
\<close>

theorem delete_preview_twice:
  "(map_of (previewSessions s) i = Some sess \<longrightarrow>
      (let (r1, s1, w1) = delete_preview E i (s, w);
           (r2, s2, w2) = delete_preview E i (s1, w1)
       in r1 = Inr ok_response \<and>
          trace w1 = trace w @ [Kill (childPid sess) ''SIGTERM'', Remove (tempDir sess)] \<and>
          previewSessions s1 = AList.delete i (previewSessions s) \<and>
          map_of (previewSessions s1) i = None \<and>
          r2 = Inr not_found_response \<and> s2 = s1 \<and> w2 = w1)) \<and>
   (map_of (previewSessions s) i = None \<longrightarrow>
      delete_preview E i (s, w) = (Inr not_found_response, s, w))"
  by (simp add: delete_preview_def Let_def process_kill_def fs_remove_def emit_def
      ok_response_def not_found_response_def delete_conv')

theorem delete_preview_twice_witness:
  "map_of (previewSessions stores1) ''11111111-1111-1111-1111-111111111111'' = Some sess1 \<and>
   (let (r1, s1, w1) = delete_preview env_idle ''11111111-1111-1111-1111-111111111111'' (stores1, world0);
        (r2, s2, w2) = delete_preview env_idle ''11111111-1111-1111-1111-111111111111'' (s1, w1)
    in r1 = Inr ok_response \<and>
       trace w1 = [Kill 4242 ''SIGTERM'', Remove ''temp/preview/t1''] \<and>
       r2 = Inr not_found_response \<and> s2 = s1 \<and> w2 = w1) \<and>
   map_of (previewSessions no_stores) ''11111111-1111-1111-1111-111111111111'' = None \<and>
   delete_preview env_idle ''11111111-1111-1111-1111-111111111111'' (no_stores, world0)
     = (Inr not_found_response, no_stores, world0)"
proof -
  have h: "map_of (previewSessions stores1) ''11111111-1111-1111-1111-111111111111'' = Some sess1"
    by (simp add: stores1_def)
  have n: "map_of (previewSessions no_stores) ''11111111-1111-1111-1111-111111111111'' = None"
    by (simp add: no_stores_def)
  show ?thesis
    using h n
      delete_preview_twice [of stores1 "''11111111-1111-1111-1111-111111111111''" sess1 env_idle world0]
      delete_preview_twice [of no_stores "''11111111-1111-1111-1111-111111111111''" sess1 env_idle world0]
    by (simp add: Let_def split_beta sess1_def world0_def)
qed

text \<open>
  C5, as stated, fails: for an id that is not registered the stop route answers 404 with
  \<open>ok: false\<close>, not an ok response.
\<close>

theorem delete_preview_gone_counterexample:
  "fst (delete_preview env_idle ''11111111-1111-1111-1111-111111111111'' (no_stores, world0))
     = Inr \<lparr>http_status = 404,
             body = Json [(''ok'', JBool False), (''error'', JString ''Preview not found'')]\<rparr>"
  by (simp add: delete_preview_def no_stores_def)

text \<open>
  C5, amended. The stop route answers ok exactly when the id is registered, and 404 with
  \<open>ok: false\<close> and the error "Preview not found" exactly when it is not.
\<close>

theorem delete_preview_ok_iff_registered:
  "(fst (delete_preview E i (s, w)) = Inr ok_response \<longleftrightarrow> map_of (previewSessions s) i \<noteq> None) \<and>
   (fst (delete_preview E i (s, w)) = Inr not_found_response \<longleftrightarrow> map_of (previewSessions s) i = None)"
  by (auto simp: delete_preview_def Let_def ok_response_def not_found_response_def
      split: option.splits)

subsection \<open>The router\<close>




lemma lower_char_p: "lower_char c = CHR ''p'' \<Longrightarrow> c = CHR ''p'' \<or> c = CHR ''P''"
  by (auto simp: lower_char_def split: if_splits)

lemma mount_not_asset:
  assumes "mount_match p = Some seg"
  shows "\<not> absAsset p"
proof -
  from assms have "map lower_char (take 9 p) = ''/preview/''"
    by (simp add: mount_match_def split: if_splits)
  then have "\<exists>c0 c1 rest. p = c0 # c1 # rest \<and> lower_char c1 = CHR ''p''"
    by (cases p; cases "tl p") auto
  then obtain c0 c1 rest where p: "p = c0 # c1 # rest" and "lower_char c1 = CHR ''p''"
    by blast
  from lower_char_p[OF this(2)] show ?thesis
    unfolding p absAsset_def by auto
qed

lemma decodeURIComponent_plain: "CHR ''%'' \<notin> set s \<Longrightarrow> decodeURIComponent s = Some s"
  by (induction s) (auto simp: decodeURIComponent.simps(2))

lemma decode_param_plain: "CHR ''%'' \<notin> set s \<Longrightarrow> decode_param s = Inr s"
  by (simp add: decode_param_def decodeURIComponent_plain)

lemma id0_match:
  "match_preview ''http://localhost:5002/preview/00000000-0000-0000-0000-000000000000/''
     = Some ''00000000-0000-0000-0000-000000000000''"
  by code_simp


lemma String_nat_5100: "String_nat 5100 = ''5100''"
  by (simp add: String_nat.simps)

lemma mount_match_prefixed:
  "mount_match ''/preview/00000000-0000-0000-0000-000000000000/index.html''
     = Some ''00000000-0000-0000-0000-000000000000''"
  by (simp add: mount_match_def lower_char_def)

lemma mount_match_live:
  "mount_match ''/preview/11111111-1111-1111-1111-111111111111/''
     = Some ''11111111-1111-1111-1111-111111111111''"
  by (simp add: mount_match_def lower_char_def)

lemma char_of_49: "char_of (49::nat) = CHR ''1''"
  by code_simp

text \<open>
  Two requests whose parameter is escaped. A parameter that does not decode is answered
  500 by the error middleware; one that decodes to a registered id is proxied, whatever
  the letter case of the mount path (the prefix is then not stripped).
\<close>

lemma router_undecodable:
  "router (previewSessions stores1) req_undecodable
     = Respond \<lparr>http_status = 500,
                body = Json [(''error'', JString (''Failed to decode param '' @ [CHR 0x27] @ ''%zz'' @ [CHR 0x27]))]\<rparr>"
proof -
  have "mount_match (req_path req_undecodable) = Some ''%zz''"
    by (simp add: mount_match_def req_undecodable_def lower_char_def)
  moreover have "decode_param ''%zz'' = Inl (Error (''Failed to decode param '' @ [CHR 0x27] @ ''%zz'' @ [CHR 0x27]))"
    by (simp add: decode_param_def decodeURIComponent.simps(2) hex_digit_def)
  moreover have "referer_proxy (previewSessions stores1) req_undecodable = Next"
    by (simp add: referer_proxy_def ref_header_def req_undecodable_def)
  ultimately show ?thesis
    by (simp add: router_def preview_mount_def error_middleware_def)
qed

lemma router_escaped:
  "router (previewSessions stores1) req_escaped
     = ProxyTo ''http://127.0.0.1:5100'' ''/PREVIEW/%311111111-1111-1111-1111-111111111111/x''"
proof -
  have "mount_match (req_path req_escaped) = Some ''%311111111-1111-1111-1111-111111111111''"
    by (simp add: mount_match_def req_escaped_def lower_char_def)
  moreover have "decodeURIComponent ''%311111111-1111-1111-1111-111111111111''
      = Some ''11111111-1111-1111-1111-111111111111''"
    by (simp add: decodeURIComponent.simps(2)[of "CHR ''%''"] hex_digit_def decodeURIComponent_plain
        char_of_49)
  then have "decode_param ''%311111111-1111-1111-1111-111111111111''
      = Inr ''11111111-1111-1111-1111-111111111111''"
    by (simp add: decode_param_def)
  moreover have "referer_proxy (previewSessions stores1) req_escaped = Next"
    by (simp add: referer_proxy_def ref_header_def req_escaped_def)
  ultimately show ?thesis
    by (simp add: router_def preview_mount_def stores1_def sess1_def String_nat_5100
        pathRewrite_def req_escaped_def)
qed

text \<open>
  HTTP requests. A request under \<open>/preview/<segment>\<close> (in any letter case) whose segment
  decodes to an id that is not registered, and an asset request whose Referer names an id
  that is not registered, are answered 404 by the router at once: the result is a
  response, not a proxied request and not a call of \<open>next()\<close>.
\<close>

lemma router_http_unknown_session:
  "(mount_match (req_path r) = Some seg \<and> decode_param seg = Inr i \<and> map_of sessions i = None \<longrightarrow>
      router sessions r = Respond \<lparr>http_status = 404, body = Text ''Preview not found or stopped''\<rparr>) \<and>
   (absAsset (req_path r) \<and> match_preview (ref_header r) = Some i \<and> map_of sessions i = None \<longrightarrow>
      router sessions r = Respond \<lparr>http_status = 404, body = Text ''Preview session not found''\<rparr>)"
proof (intro conjI impI)
  assume h: "mount_match (req_path r) = Some seg \<and> decode_param seg = Inr i \<and> map_of sessions i = None"
  then have "\<not> absAsset (req_path r)"
    using mount_not_asset by blast
  then have "referer_proxy sessions r = Next"
    by (simp add: referer_proxy_def split: option.splits)
  then show "router sessions r = Respond \<lparr>http_status = 404, body = Text ''Preview not found or stopped''\<rparr>"
    using h by (simp add: router_def preview_mount_def)
next
  assume "absAsset (req_path r) \<and> match_preview (ref_header r) = Some i \<and> map_of sessions i = None"
  then show "router sessions r = Respond \<lparr>http_status = 404, body = Text ''Preview session not found''\<rparr>"
    by (simp add: router_def referer_proxy_def)
qed

text \<open>
  Upgrade requests. While no proxy listens for upgrades they go through the router like
  any HTTP request; once a proxy listens, every listening proxy forwards them and the
  router does not see them, whatever the session registry holds.
\<close>

lemma dispatch_upgrade:
  "dispatch [] sessions (UpgradeRequest r) = [router sessions r] \<and>
   (listeners \<noteq> [] \<longrightarrow>
      dispatch listeners sessions (UpgradeRequest r) = map (\<lambda>l. forward_upgrade l r) listeners \<and>
      (\<forall>a. Respond a \<notin> set (dispatch listeners sessions (UpgradeRequest r))))"
  by (auto simp: dispatch_def forward_upgrade_def split: ws_listener.splits)

text \<open>
  C9 holds for HTTP requests and fails for a WebSocket upgrade. With the session of
  \<open>stores1\<close> registered, the HTTP request for a path under an id that is not registered is
  answered 404, and the HTTP request for a page of the live session is proxied to port
  5100; the proxy of the mount listens for upgrades from then on. The upgrade request for
  the path under the id that is not registered is then forwarded to \<open>http://127.0.0.1\<close>,
  path unchanged, by that proxy, and is not answered 404.
\<close>

theorem upgrade_unknown_session_forwarded:
  "map_of (previewSessions stores1) ''00000000-0000-0000-0000-000000000000'' = None \<and>
   dispatch [] (previewSessions stores1) (HttpRequest req_prefixed)
     = [Respond \<lparr>http_status = 404, body = Text ''Preview not found or stopped''\<rparr>] \<and>
   dispatch [] (previewSessions stores1) (HttpRequest req_live)
     = [ProxyTo ''http://127.0.0.1:5100'' ''/''] \<and>
   subscribe [] (previewSessions stores1) req_live = [MountProxy] \<and>
   dispatch [MountProxy] (previewSessions stores1) (UpgradeRequest req_prefixed)
     = [ProxyTo ''http://127.0.0.1'' ''/preview/00000000-0000-0000-0000-000000000000/index.html'']"
proof -
  have unknown: "map_of (previewSessions stores1) ''00000000-0000-0000-0000-000000000000'' = None"
    by (simp add: stores1_def)
  have "mount_match (req_path req_prefixed) = Some ''00000000-0000-0000-0000-000000000000'' \<and>
      decode_param ''00000000-0000-0000-0000-000000000000'' = Inr ''00000000-0000-0000-0000-000000000000'' \<and>
      map_of (previewSessions stores1) ''00000000-0000-0000-0000-000000000000'' = None"
    by (simp add: req_prefixed_def mount_match_prefixed decode_param_plain stores1_def)
  with router_http_unknown_session [of req_prefixed "''00000000-0000-0000-0000-000000000000''"
      "''00000000-0000-0000-0000-000000000000''" "previewSessions stores1"]
  have http: "router (previewSessions stores1) req_prefixed
      = Respond \<lparr>http_status = 404, body = Text ''Preview not found or stopped''\<rparr>"
    by blast
  have ref: "referer_proxy (previewSessions stores1) req_live = Next"
    by (simp add: referer_proxy_def ref_header_def req_live_def)
  have mount: "preview_mount (previewSessions stores1) req_live
      = Inr (ProxyTo ''http://127.0.0.1:5100'' ''/'')"
    by (simp add: preview_mount_def req_live_def mount_match_live decode_param_plain stores1_def
        sess1_def String_nat_5100 pathRewrite_def)
  have live: "router (previewSessions stores1) req_live = ProxyTo ''http://127.0.0.1:5100'' ''/''"
    using ref mount by (simp add: router_def)
  have sub: "subscribe [] (previewSessions stores1) req_live = [MountProxy]"
    using ref mount by (simp add: subscribe_def)
  have up: "dispatch [MountProxy] (previewSessions stores1) (UpgradeRequest req_prefixed)
     = [ProxyTo ''http://127.0.0.1'' ''/preview/00000000-0000-0000-0000-000000000000/index.html'']"
    by (simp add: dispatch_def forward_upgrade_def pathRewrite_def req_prefixed_def)
  from unknown http live sub up show ?thesis
    by (simp add: dispatch_def)
qed

text \<open>An asset request whose Referer names an id that is not registered.\<close>

lemma router_orphan:
  "router (previewSessions stores1) req_orphan
     = Respond \<lparr>http_status = 404, body = Text ''Preview session not found''\<rparr>"
proof -
  have "absAsset (req_path req_orphan) \<and>
      match_preview (ref_header req_orphan) = Some ''00000000-0000-0000-0000-000000000000'' \<and>
      map_of (previewSessions stores1) ''00000000-0000-0000-0000-000000000000'' = None"
    by (simp add: absAsset_def ref_header_def req_orphan_def id0_match stores1_def
        del: match_preview.simps)
  with router_http_unknown_session [of req_orphan _ "''00000000-0000-0000-0000-000000000000''"
      "previewSessions stores1"]
  show ?thesis by blast
qed




subsection \<open>The health prober\<close>

lemma trace_ping: "trace (snd (ping E url m t w)) = trace w @ [Fetch url m t]"
  by (simp add: ping_def Let_def emit_def split: prod.splits reply.splits)

lemma ok_ping:
  "ok (fst (ping E url m t w)) \<longleftrightarrow>
     (\<exists>st l. respond E w url m = (Responds st, l) \<and> l < timer_delay t \<and> 200 \<le> st \<and> st \<le> 299)"
  by (auto simp: ping_def Let_def split: prod.splits reply.splits)

lemma now_ping_upper: "now (snd (ping E url m t w)) \<le> now w + timer_delay t"
  by (auto simp: ping_def Let_def emit_def split: prod.splits reply.splits)

lemma urls_Nil: "urls E base [] = []"
  by (simp add: urls_def List.map_filter_simps)

lemma urls_None: "new_URL E p base = None \<Longrightarrow> urls E base (p # ps) = urls E base ps"
  by (simp add: urls_def List.map_filter_simps)

lemma urls_Some: "new_URL E p base = Some u \<Longrightarrow> urls E base (p # ps) = u # urls E base ps"
  by (simp add: urls_def List.map_filter_simps)

lemma length_urls: "length (urls E base ps) \<le> length ps"
  by (simp add: urls_def List.map_filter_def)

lemma probe_paths_run:
  "\<exists>es. trace (snd (probe_paths E base i ps w)) = trace w @ es \<and>
     (\<forall>e\<in>set es. \<exists>u m. u \<in> set (urls E base ps) \<and> e = Fetch u m (min 2000 i)) \<and>
     length es \<le> 2 * length (urls E base ps) \<and>
     now (snd (probe_paths E base i ps w)) \<le> now w + length es * timer_delay (min 2000 i) \<and>
     (if fst (probe_paths E base i ps w)
      then \<exists>v u m. u \<in> set (urls E base ps) \<and> ok (fst (ping E u m (min 2000 i) v)) \<and>
             snd (probe_paths E base i ps w) = snd (ping E u m (min 2000 i) v)
      else es = concat (map (\<lambda>u. [Fetch u HEAD (min 2000 i), Fetch u GET (min 2000 i)])
                         (urls E base ps)))"
proof (induction ps arbitrary: w)
  case Nil
  show ?case by (simp add: urls_Nil)
next
  case (Cons a ps)
  let ?t = "min 2000 i"
  show ?case
  proof (cases "new_URL E a base")
    case None
    then have r: "probe_paths E base i (a # ps) w = probe_paths E base i ps w"
      by simp
    show ?thesis
      unfolding r urls_None[OF None] by (rule Cons.IH)
  next
    case (Some u)
    note us = urls_Some[OF Some, of ps]
    obtain h w1 where h: "ping E u HEAD ?t w = (h, w1)"
      by (cases "ping E u HEAD ?t w")
    obtain g w2 where g: "ping E u GET ?t w1 = (g, w2)"
      by (cases "ping E u GET ?t w1")
    have t1: "trace w1 = trace w @ [Fetch u HEAD ?t]"
      using trace_ping[of E u HEAD ?t w] h by simp
    have t2: "trace w2 = trace w @ [Fetch u HEAD ?t, Fetch u GET ?t]"
      using trace_ping[of E u GET ?t w1] g t1 by simp
    have n1: "now w1 \<le> now w + timer_delay ?t"
      using now_ping_upper[of E u HEAD ?t w] h by simp
    have n2: "now w2 \<le> now w + 2 * timer_delay ?t"
      using now_ping_upper[of E u GET ?t w1] g n1 by simp
    consider "ok h" | "\<not> ok h" "ok g" | "\<not> ok h" "\<not> ok g" by blast
    then show ?thesis
    proof cases
      case 1
      then have r: "probe_paths E base i (a # ps) w = (True, w1)"
        using Some h by (simp add: Let_def)
      have "\<exists>v x m. x \<in> set (urls E base (a # ps)) \<and> ok (fst (ping E x m ?t v)) \<and>
             w1 = snd (ping E x m ?t v)"
        using h 1 by (intro exI[of _ w] exI[of _ u] exI[of _ HEAD]) (simp add: us)
      then show ?thesis
        unfolding r using t1 n1
        by (intro exI[of _ "[Fetch u HEAD ?t]"]) (simp add: us)
    next
      case 2
      then have r: "probe_paths E base i (a # ps) w = (True, w2)"
        using Some h g by (simp add: Let_def)
      have "\<exists>v x m. x \<in> set (urls E base (a # ps)) \<and> ok (fst (ping E x m ?t v)) \<and>
             w2 = snd (ping E x m ?t v)"
        using g 2 by (intro exI[of _ w1] exI[of _ u] exI[of _ GET]) (simp add: us)
      then show ?thesis
        unfolding r using t2 n2
        by (intro exI[of _ "[Fetch u HEAD ?t, Fetch u GET ?t]"]) (simp add: us)
    next
      case 3
      then have r: "probe_paths E base i (a # ps) w = probe_paths E base i ps w2"
        using Some h g by (simp add: Let_def)
      from Cons.IH[of w2] obtain es where es:
        "trace (snd (probe_paths E base i ps w2)) = trace w2 @ es"
        "\<forall>e\<in>set es. \<exists>x m. x \<in> set (urls E base ps) \<and> e = Fetch x m ?t"
        "length es \<le> 2 * length (urls E base ps)"
        "now (snd (probe_paths E base i ps w2)) \<le> now w2 + length es * timer_delay ?t"
        "if fst (probe_paths E base i ps w2)
         then \<exists>v x m. x \<in> set (urls E base ps) \<and> ok (fst (ping E x m ?t v)) \<and>
             snd (probe_paths E base i ps w2) = snd (ping E x m ?t v)
         else es = concat (map (\<lambda>x. [Fetch x HEAD ?t, Fetch x GET ?t]) (urls E base ps))"
        by blast
      let ?es = "[Fetch u HEAD ?t, Fetch u GET ?t] @ es"
      have a: "trace (snd (probe_paths E base i (a # ps) w)) = trace w @ ?es"
        unfolding r using es(1) t2 by simp
      have b: "\<forall>e\<in>set ?es. \<exists>x m. x \<in> set (urls E base (a # ps)) \<and> e = Fetch x m ?t"
        using es(2) by (fastforce simp: us Ball_def)
      have c: "length ?es \<le> 2 * length (urls E base (a # ps))"
        using es(3) by (simp add: us)
      have d: "now (snd (probe_paths E base i (a # ps) w)) \<le> now w + length ?es * timer_delay ?t"
        unfolding r using es(4) n2 by simp
      have e: "if fst (probe_paths E base i (a # ps) w)
         then \<exists>v x m. x \<in> set (urls E base (a # ps)) \<and> ok (fst (ping E x m ?t v)) \<and>
             snd (probe_paths E base i (a # ps) w) = snd (ping E x m ?t v)
         else ?es = concat (map (\<lambda>x. [Fetch x HEAD ?t, Fetch x GET ?t]) (urls E base (a # ps)))"
      proof (cases "fst (probe_paths E base i ps w2)")
        case True
        with es(5) obtain v x m where "x \<in> set (urls E base ps)" "ok (fst (ping E x m ?t v))"
          "snd (probe_paths E base i ps w2) = snd (ping E x m ?t v)"
          by auto
        then have "x \<in> set (urls E base (a # ps)) \<and> ok (fst (ping E x m ?t v)) \<and>
          snd (probe_paths E base i (a # ps) w) = snd (ping E x m ?t v)"
          unfolding r by (simp add: us)
        then have "\<exists>v x m. x \<in> set (urls E base (a # ps)) \<and> ok (fst (ping E x m ?t v)) \<and>
             snd (probe_paths E base i (a # ps) w) = snd (ping E x m ?t v)"
          by (intro exI[of _ v] exI[of _ x] exI[of _ m])
        then show ?thesis using True unfolding r by simp
      next
        case False
        with es(5) show ?thesis unfolding r by (simp add: us)
      qed
      from a b c d e show ?thesis by blast
    qed
  qed
qed


lemma probe_paths_fail:
  assumes "\<forall>v m. \<forall>u\<in>set (urls E base ps). \<not> ok (fst (ping E u m (min 2000 i) v))"
  shows "fst (probe_paths E base i ps w) = False"
proof (rule ccontr)
  assume "fst (probe_paths E base i ps w) \<noteq> False"
  then have t: "fst (probe_paths E base i ps w)" by simp
  from probe_paths_run[of E base i ps w] t obtain v u m where
    "u \<in> set (urls E base ps)" "ok (fst (ping E u m (min 2000 i) v))"
    by auto
  with assms show False by blast
qed


lemma loop_test: "int (now w) - int t0 < int tot \<longleftrightarrow> now w < t0 + tot"
  by linarith

lemma length_urls_paths: "length (urls E base paths) \<le> 5"
  using length_urls[of E base paths] by (simp add: paths_def)

lemma probe_paths_tick:
  assumes "probe_paths E base i paths w = (c, w1)"
  shows "\<exists>es. trace w1 = trace w @ es \<and> (\<forall>e\<in>set es. tick_event E base i e) \<and>
     now w1 \<le> now w + 10 * timer_delay (min 2000 i) \<and>
     (if c
      then \<exists>v u m. u \<in> set (urls E base paths) \<and> ok (fst (ping E u m (min 2000 i) v)) \<and>
             w1 = snd (ping E u m (min 2000 i) v)
      else es @ [Sleep i] = failed_tick E base i paths)"
proof -
  from probe_paths_run[of E base i paths w, unfolded assms fst_conv snd_conv]
  obtain es where es:
    "trace w1 = trace w @ es"
    "\<forall>e\<in>set es. \<exists>u m. u \<in> set (urls E base paths) \<and> e = Fetch u m (min 2000 i)"
    "length es \<le> 2 * length (urls E base paths)"
    "now w1 \<le> now w + length es * timer_delay (min 2000 i)"
    "if c then \<exists>v u m. u \<in> set (urls E base paths) \<and> ok (fst (ping E u m (min 2000 i) v)) \<and>
             w1 = snd (ping E u m (min 2000 i) v)
     else es = concat (map (\<lambda>u. [Fetch u HEAD (min 2000 i), Fetch u GET (min 2000 i)])
                         (urls E base paths))"
    by blast
  have "length es \<le> 10"
    using es(3) length_urls_paths[of E base] by simp
  then have "length es * timer_delay (min 2000 i) \<le> 10 * timer_delay (min 2000 i)"
    by (rule mult_le_mono1)
  with es(4) have a: "now w1 \<le> now w + 10 * timer_delay (min 2000 i)"
    by linarith
  have b: "\<forall>e\<in>set es. tick_event E base i e"
    using es(2) by (fastforce simp: tick_event_def)
  have c: "if c
      then \<exists>v u m. u \<in> set (urls E base paths) \<and> ok (fst (ping E u m (min 2000 i) v)) \<and>
             w1 = snd (ping E u m (min 2000 i) v)
      else es @ [Sleep i] = failed_tick E base i paths"
    using es(5) by (cases c) (simp_all add: failed_tick_def)
  from es(1) a b c show ?thesis by blast
qed

lemma waitLoop_run:
  "waitLoop E base t0 tot i w = (b, w') \<Longrightarrow>
     \<exists>es. trace w' = trace w @ es \<and> (\<forall>e\<in>set es. tick_event E base i e) \<and>
       (if b then now w < t0 + tot \<and> now w' < t0 + tot + 10 * timer_delay (min 2000 i) \<and>
          (\<exists>v u m. u \<in> set (urls E base paths) \<and> ok (fst (ping E u m (min 2000 i) v)) \<and>
             w' = snd (ping E u m (min 2000 i) v))
        else t0 + tot \<le> now w' \<and>
          (w' = w \<or> now w' < t0 + tot + 10 * timer_delay (min 2000 i) + timer_delay i))"
proof (induction E base t0 tot i w rule: waitLoop.induct)
  case (1 E base t0 totalMs intervalMs w)
  let ?T = "timer_delay (min 2000 intervalMs)"
  show ?case
  proof (cases "int (now w) - int t0 < int totalMs")
    case False
    then have "waitLoop E base t0 totalMs intervalMs w = (False, w)"
      by (simp add: waitLoop.simps)
    with "1.prems" have "b = False" "w' = w" by simp_all
    then show ?thesis
      using False by (intro exI[of _ "[]"]) (simp add: loop_test)
  next
    case True
    then have lt: "now w < t0 + totalMs" by (simp add: loop_test)
    obtain c w1 where p: "probe_paths E base intervalMs paths w = (c, w1)"
      by (cases "probe_paths E base intervalMs paths w")
    from probe_paths_tick[OF p] obtain es1 where es1:
      "trace w1 = trace w @ es1" "\<forall>e\<in>set es1. tick_event E base intervalMs e"
      "now w1 \<le> now w + 10 * ?T"
      "if c
       then \<exists>v u m. u \<in> set (urls E base paths) \<and> ok (fst (ping E u m (min 2000 intervalMs) v)) \<and>
             w1 = snd (ping E u m (min 2000 intervalMs) v)
       else es1 @ [Sleep intervalMs] = failed_tick E base intervalMs paths"
      by blast
    show ?thesis
    proof (cases c)
      case c: True
      then have "waitLoop E base t0 totalMs intervalMs w = (True, w1)"
        using True p by (subst waitLoop.simps) simp
      with "1.prems" have eq: "b = True" "w' = w1" by simp_all
      have "now w1 < t0 + totalMs + 10 * ?T"
        using es1(3) lt by simp
      then show ?thesis
        unfolding eq using es1(1,2,4) c lt by (intro exI[of _ es1]) simp
    next
      case c: False
      let ?ws = "sleep intervalMs w1"
      have step: "waitLoop E base t0 totalMs intervalMs w
          = waitLoop E base t0 totalMs intervalMs ?ws"
        using True p c by (subst waitLoop.simps) simp
      with "1.prems" have r: "waitLoop E base t0 totalMs intervalMs ?ws = (b, w')"
        by simp
      from "1.IH"[OF True p[symmetric] _ r] c obtain es2 where es2:
        "trace w' = trace ?ws @ es2" "\<forall>e\<in>set es2. tick_event E base intervalMs e"
        "if b then now ?ws < t0 + totalMs \<and> now w' < t0 + totalMs + 10 * ?T \<and>
          (\<exists>v u m. u \<in> set (urls E base paths) \<and> ok (fst (ping E u m (min 2000 intervalMs) v)) \<and>
             w' = snd (ping E u m (min 2000 intervalMs) v))
        else t0 + totalMs \<le> now w' \<and>
          (w' = ?ws \<or> now w' < t0 + totalMs + 10 * ?T + timer_delay intervalMs)"
        by auto
      have ns: "now ?ws < t0 + totalMs + 10 * ?T + timer_delay intervalMs"
        using es1(3) lt by (simp add: sleep_def)
      let ?es = "es1 @ [Sleep intervalMs] @ es2"
      have a: "trace w' = trace w @ ?es"
        using es2(1) es1(1) by (simp add: sleep_def)
      have e: "\<forall>e\<in>set ?es. tick_event E base intervalMs e"
        using es1(2) es2(2) by (auto simp: tick_event_def)
      have f: "if b then now w < t0 + totalMs \<and> now w' < t0 + totalMs + 10 * ?T \<and>
          (\<exists>v u m. u \<in> set (urls E base paths) \<and> ok (fst (ping E u m (min 2000 intervalMs) v)) \<and>
             w' = snd (ping E u m (min 2000 intervalMs) v))
        else t0 + totalMs \<le> now w' \<and>
          (w' = w \<or> now w' < t0 + totalMs + 10 * ?T + timer_delay intervalMs)"
      proof (cases b)
        case True
        with es2(3) lt show ?thesis by simp
      next
        case False
        with es2(3) have "t0 + totalMs \<le> now w'"
          "w' = ?ws \<or> now w' < t0 + totalMs + 10 * ?T + timer_delay intervalMs"
          by simp_all
        then have "now w' < t0 + totalMs + 10 * ?T + timer_delay intervalMs"
          using ns by auto
        with False \<open>t0 + totalMs \<le> now w'\<close> show ?thesis by simp
      qed
      from a e f show ?thesis by blast
    qed
  qed
qed

lemma waitLoop_all_fail:
  assumes "\<forall>v m. \<forall>u\<in>set (urls E base paths). \<not> ok (fst (ping E u m (min 2000 i) v))"
  shows "\<exists>n w'. waitLoop E base t0 tot i w = (False, w') \<and>
     trace w' = trace w @ concat (replicate n (failed_tick E base i paths)) \<and>
     (now w < t0 + tot \<longrightarrow> 0 < n)"
  using assms
proof (induction E base t0 tot i w rule: waitLoop.induct)
  case (1 E base t0 totalMs intervalMs w)
  show ?case
  proof (cases "int (now w) - int t0 < int totalMs")
    case False
    then have "waitLoop E base t0 totalMs intervalMs w = (False, w)"
      by (simp add: waitLoop.simps)
    with False show ?thesis
      by (intro exI[of _ 0] exI[of _ w]) (simp add: loop_test)
  next
    case True
    obtain c w1 where p: "probe_paths E base intervalMs paths w = (c, w1)"
      by (cases "probe_paths E base intervalMs paths w")
    have c: "c = False"
      using probe_paths_fail[OF "1.prems", of w] p by simp
    from probe_paths_tick[OF p] c obtain es1 where es1:
      "trace w1 = trace w @ es1" "es1 @ [Sleep intervalMs] = failed_tick E base intervalMs paths"
      by auto
    have step: "waitLoop E base t0 totalMs intervalMs w
        = waitLoop E base t0 totalMs intervalMs (sleep intervalMs w1)"
      using True p c by (subst waitLoop.simps) simp
    from "1.IH"[OF True p[symmetric, unfolded c] _ "1.prems"]
    obtain n w' where n: "waitLoop E base t0 totalMs intervalMs (sleep intervalMs w1) = (False, w')"
      "trace w' = trace (sleep intervalMs w1) @ concat (replicate n (failed_tick E base intervalMs paths))"
      by auto
    have "trace (sleep intervalMs w1) = trace w @ failed_tick E base intervalMs paths"
      using es1 by (simp add: sleep_def)
    then have "trace w' = trace w @ concat (replicate (Suc n) (failed_tick E base intervalMs paths))"
      using n(2) by simp
    then show ?thesis
      using step n(1) by (intro exI[of _ "Suc n"] exI[of _ w']) simp
  qed
qed

lemma waitForOkAny_run:
  assumes "waitForOkAny E base tot i w = (b, u)"
  shows "\<exists>es. trace u = trace w @ es \<and> (\<forall>e\<in>set es. tick_event E base i e) \<and>
       (if b then 0 < tot \<and> now u < now w + tot + 10 * timer_delay (min 2000 i) \<and>
          (\<exists>v x m. x \<in> set (urls E base paths) \<and> ok (fst (ping E x m (min 2000 i) v)) \<and>
             u = snd (ping E x m (min 2000 i) v))
        else now w + tot \<le> now u \<and>
          now u < now w + tot + 10 * timer_delay (min 2000 i) + timer_delay i)"
proof -
  from waitLoop_run[of E base "now w" tot i w b u] assms obtain es where es:
    "trace u = trace w @ es" "\<forall>e\<in>set es. tick_event E base i e"
    "if b then now w < now w + tot \<and> now u < now w + tot + 10 * timer_delay (min 2000 i) \<and>
          (\<exists>v x m. x \<in> set (urls E base paths) \<and> ok (fst (ping E x m (min 2000 i) v)) \<and>
             u = snd (ping E x m (min 2000 i) v))
        else now w + tot \<le> now u \<and>
          (u = w \<or> now u < now w + tot + 10 * timer_delay (min 2000 i) + timer_delay i)"
    unfolding waitForOkAny_def by blast
  have pos: "0 < timer_delay i"
    by (simp add: timer_delay_def)
  have "if b then 0 < tot \<and> now u < now w + tot + 10 * timer_delay (min 2000 i) \<and>
          (\<exists>v x m. x \<in> set (urls E base paths) \<and> ok (fst (ping E x m (min 2000 i) v)) \<and>
             u = snd (ping E x m (min 2000 i) v))
        else now w + tot \<le> now u \<and>
          now u < now w + tot + 10 * timer_delay (min 2000 i) + timer_delay i"
  proof (cases b)
    case True
    with es(3) show ?thesis by simp
  next
    case False
    with es(3) have "now w + tot \<le> now u"
      "u = w \<or> now u < now w + tot + 10 * timer_delay (min 2000 i) + timer_delay i"
      by simp_all
    then have "now u < now w + tot + 10 * timer_delay (min 2000 i) + timer_delay i"
      using pos by auto
    with False \<open>now w + tot \<le> now u\<close> show ?thesis by simp
  qed
  with es(1,2) show ?thesis by blast
qed


lemma digit_not_slash: "k < 10 \<Longrightarrow> ''0123456789'' ! k \<noteq> CHR ''/'' \<and> ''0123456789'' ! k \<noteq> CHR '':''"
proof -
  assume "k < 10"
  then have "''0123456789'' ! k \<in> set ''0123456789''"
    by (intro nth_mem) simp
  then show ?thesis by auto
qed

lemma String_nat_last: "String_nat n \<noteq> [] \<and> last (String_nat n) \<noteq> CHR ''/''"
proof (cases "n < 10")
  case True
  then show ?thesis
    using digit_not_slash[of n] by (simp add: String_nat.simps[of n])
next
  case False
  then show ?thesis
    using digit_not_slash[of "n mod 10"] by (simp add: String_nat.simps[of n])
qed

lemma strip_slash_origin:
  "strip_slash (''http://127.0.0.1:'' @ String_nat n) = ''http://127.0.0.1:'' @ String_nat n"
  using String_nat_last[of n] by (simp add: strip_slash_def)


lemma origin_mem:
  assumes "0 < n" "n < 65536" "n \<noteq> 80"
  shows "''http://127.0.0.1:'' @ String_nat n \<in> set loopback_origins"
proof -
  have "n \<in> set (filter (\<lambda>n. n \<noteq> 80) [1..<65536])"
    using assms by simp
  then show ?thesis
    unfolding loopback_origins_def set_map by (rule imageI)
qed

lemma new_URL_loopback:
  "strip_slash base = b \<Longrightarrow> b \<in> set loopback_origins \<Longrightarrow> q \<in> set paths \<Longrightarrow>
     new_URL E q base = Some (b @ q)"
  by (simp add: new_URL_def)

lemma new_URL_origin:
  assumes "0 < n" "n < 65536" "n \<noteq> 80" "q \<in> set paths"
  shows "new_URL E q (''http://127.0.0.1:'' @ String_nat n)
     = Some ((''http://127.0.0.1:'' @ String_nat n) @ q)"
  by (rule new_URL_loopback[OF strip_slash_origin origin_mem[OF assms(1-3)] assms(4)])


lemma map_filter_Some: "\<forall>q\<in>set ps. f q = Some (g q) \<Longrightarrow> List.map_filter f ps = map g ps"
  by (induction ps) (simp_all add: List.map_filter_simps)

lemma urls_origin:
  assumes "0 < n" "n < 65536" "n \<noteq> 80"
  shows "urls E (''http://127.0.0.1:'' @ String_nat n) paths
     = map (\<lambda>q. (''http://127.0.0.1:'' @ String_nat n) @ q) paths"
  unfolding urls_def
  by (rule map_filter_Some) (blast intro: new_URL_origin[OF assms])


lemma tick_event_origin:
  assumes "0 < n" "n < 65536" "n \<noteq> 80"
  shows "tick_event E (''http://127.0.0.1:'' @ String_nat n) i e
     = probe_event (''http://127.0.0.1:'' @ String_nat n) i e"
  unfolding tick_event_def probe_event_def urls_origin[OF assms] by (rule refl)




lemma new_URL_5100:
  "q \<in> set paths \<Longrightarrow> new_URL E q ''http://127.0.0.1:5100'' = Some (''http://127.0.0.1:5100'' @ q)"
  using new_URL_origin[of 5100 q E] by (simp add: String_nat_5100)


lemma urls_5100:
  "urls E ''http://127.0.0.1:5100'' paths
     = [''http://127.0.0.1:5100/'', ''http://127.0.0.1:5100/index.html'',
        ''http://127.0.0.1:5100/api/health'', ''http://127.0.0.1:5100/api/hello'',
        ''http://127.0.0.1:5100/api/status'']"
  using urls_origin[of 5100 E] by (simp add: String_nat_5100 paths_def)






lemma waitForOkAny_all_fail:
  assumes "\<forall>v m. \<forall>x\<in>set (urls E base paths). \<not> ok (fst (ping E x m (min 2000 i) v))"
  shows "\<exists>n w'. waitForOkAny E base tot i w = (False, w') \<and>
     trace w' = trace w @ concat (replicate n (failed_tick E base i paths)) \<and>
     now w + tot \<le> now w' \<and>
     now w' < now w + tot + 10 * timer_delay (min 2000 i) + timer_delay i \<and>
     (0 < tot \<longrightarrow> 0 < n)"
proof -
  from waitLoop_all_fail[OF assms, of "now w" tot w] obtain n w' where n:
    "waitForOkAny E base tot i w = (False, w')"
    "trace w' = trace w @ concat (replicate n (failed_tick E base i paths))"
    "0 < tot \<longrightarrow> 0 < n"
    unfolding waitForOkAny_def by auto
  from waitForOkAny_run[OF n(1)] have "now w + tot \<le> now w'"
    "now w' < now w + tot + 10 * timer_delay (min 2000 i) + timer_delay i"
    by auto
  with n show ?thesis by blast
qed





subsection \<open>The launcher\<close>

lemma waitForOkAny_events:
  assumes "0 < n" "n < 65536" "n \<noteq> 80"
  shows "\<exists>es. trace (snd (waitForOkAny E (''http://127.0.0.1:'' @ String_nat n) tot i w)) = trace w @ es \<and>
     (\<forall>e\<in>set es. probe_event (''http://127.0.0.1:'' @ String_nat n) i e)"
proof -
  obtain b u where r: "waitForOkAny E (''http://127.0.0.1:'' @ String_nat n) tot i w = (b, u)"
    by (cases "waitForOkAny E (''http://127.0.0.1:'' @ String_nat n) tot i w")
  from waitForOkAny_run[OF r] obtain es where es: "trace u = trace w @ es"
    "\<forall>e\<in>set es. tick_event E (''http://127.0.0.1:'' @ String_nat n) i e"
    by blast
  have "\<forall>e\<in>set es. probe_event (''http://127.0.0.1:'' @ String_nat n) i e"
    using es(2) unfolding tick_event_origin[OF assms] .
  with es(1) show ?thesis
    unfolding r snd_conv by blast
qed

lemma allocated_port:
  assumes "getFreePort E 5100 5199 w = (Inr p, w1)"
  shows "0 < p" "p < 65536" "p \<noteq> 80"
  using assms by (simp_all add: getFreePort_Inr)

lemma spawnDev_spawned:
  "spawnDev E dir (args t) (case env t of Some vars \<Rightarrow> vars | None \<Rightarrow> process_env E) Inherit v
     = (child_pid E v (call_of E dir t), spawned E dir t v)"
  by (simp add: spawnDev_def call_of_def spawned_def Let_def)

lemma given_up_eq:
  "sleep 300 (snd (process_kill E (case child_pid E v (call_of E dir t) of Some pid \<Rightarrow> pid | None \<Rightarrow> - 1)
      ''SIGTERM'' (snd (probed E dir p t v)))) = given_up E dir p t v"
  by (simp add: given_up_def sleep_def process_kill_def emit_def timer_delay_def Let_def)

lemma try_each_Cons:
  "try_each E dir p (t # ts) v =
     (if fst (probed E dir p t v)
      then (Some (child_pid E v (call_of E dir t)), snd (probed E dir p t v))
      else try_each E dir p ts (given_up E dir p t v))"
proof -
  have "try_each E dir p (t # ts) v =
     (let (child, w1) = (child_pid E v (call_of E dir t), spawned E dir t v);
          (healthy, w2) = probed E dir p t v
      in if healthy then (Some child, w2)
         else (let w3 = snd (process_kill E (case child of Some pid \<Rightarrow> pid | None \<Rightarrow> - 1) ''SIGTERM'' w2)
               in try_each E dir p ts (sleep 300 w3)))"
    unfolding try_each.simps spawnDev_spawned probed_def by simp
  then show ?thesis
    by (simp add: split_beta Let_def given_up_eq)
qed

lemma before_0: "before E dir p ts 0 w = w"
  by (simp add: before_def)

lemma before_Suc: "before E dir p (t # ts) (Suc j) w = before E dir p ts j (given_up E dir p t w)"
  by (simp add: before_def)

lemma try_each_None:
  "try_each E dir p ts w = (None, w2) \<longleftrightarrow>
     (\<forall>j<length ts. \<not> fst (probed E dir p (ts ! j) (before E dir p ts j w))) \<and>
     w2 = before E dir p ts (length ts) w"
proof (induction ts arbitrary: w)
  case Nil
  show ?case by (auto simp: before_0)
next
  case (Cons t ts)
  show ?case
  proof (cases "fst (probed E dir p t w)")
    case True
    then have "try_each E dir p (t # ts) w \<noteq> (None, w2)"
      by (simp add: try_each_Cons del: try_each.simps)
    moreover have "\<not> (\<forall>j<length (t # ts). \<not> fst (probed E dir p ((t # ts) ! j) (before E dir p (t # ts) j w)))"
      using True by (auto simp: before_0 intro!: exI[of _ 0])
    ultimately show ?thesis by blast
  next
    case False
    then have step: "try_each E dir p (t # ts) w = try_each E dir p ts (given_up E dir p t w)"
      by (simp add: try_each_Cons del: try_each.simps)
    have "(\<forall>j<length (t # ts). \<not> fst (probed E dir p ((t # ts) ! j) (before E dir p (t # ts) j w)))
      \<longleftrightarrow> (\<forall>j<length ts. \<not> fst (probed E dir p (ts ! j) (before E dir p ts j (given_up E dir p t w))))"
      using False by (simp add: All_less_Suc2 before_0 before_Suc)
    then show ?thesis
      unfolding step Cons.IH by (simp add: before_Suc)
  qed
qed

lemma try_each_Some_iff:
  "try_each E dir p ts w = (Some child, w2) \<longleftrightarrow>
     (\<exists>j<length ts.
        (\<forall>i<j. \<not> fst (probed E dir p (ts ! i) (before E dir p ts i w))) \<and>
        probed E dir p (ts ! j) (before E dir p ts j w) = (True, w2) \<and>
        child = child_pid E (before E dir p ts j w) (call_of E dir (ts ! j)))"
proof (induction ts arbitrary: w)
  case Nil
  show ?case by simp
next
  case (Cons t ts)
  let ?P = "\<lambda>us v j. (\<forall>i<j. \<not> fst (probed E dir p (us ! i) (before E dir p us i v))) \<and>
        probed E dir p (us ! j) (before E dir p us j v) = (True, w2) \<and>
        child = child_pid E (before E dir p us j v) (call_of E dir (us ! j))"
  show ?case
  proof (cases "fst (probed E dir p t w)")
    case True
    have zero: "j = 0" if "?P (t # ts) w j" for j
    proof (rule ccontr)
      assume "j \<noteq> 0"
      then have "0 < j" by simp
      with that have "\<not> fst (probed E dir p ((t # ts) ! 0) (before E dir p (t # ts) 0 w))"
        by blast
      with True show False by (simp add: before_0)
    qed
    have l: "try_each E dir p (t # ts) w = (Some child, w2) \<longleftrightarrow>
        probed E dir p t w = (True, w2) \<and> child = child_pid E w (call_of E dir t)"
      using True by (cases "probed E dir p t w") (auto simp: try_each_Cons simp del: try_each.simps)
    have r: "(\<exists>j<length (t # ts). ?P (t # ts) w j) \<longleftrightarrow> ?P (t # ts) w 0"
    proof
      assume "\<exists>j<length (t # ts). ?P (t # ts) w j"
      then obtain j where j: "?P (t # ts) w j" by blast
      from zero[OF j] have "j = 0" .
      with j show "?P (t # ts) w 0" by blast
    next
      assume "?P (t # ts) w 0"
      moreover have "0 < length (t # ts)" by simp
      ultimately show "\<exists>j<length (t # ts). ?P (t # ts) w j" by blast
    qed
    show ?thesis
      unfolding l r by (auto simp: before_0)
  next
    case False
    then have step: "try_each E dir p (t # ts) w = try_each E dir p ts (given_up E dir p t w)"
      by (simp add: try_each_Cons del: try_each.simps)
    have n0: "\<not> ?P (t # ts) w 0"
      using False by (auto simp: before_0)
    have suc: "?P (t # ts) w (Suc j) \<longleftrightarrow> ?P ts (given_up E dir p t w) j" for j
      using False by (simp add: All_less_Suc2 before_0 before_Suc)
    have "(\<exists>j<length (t # ts). ?P (t # ts) w j) \<longleftrightarrow> (\<exists>j<length ts. ?P ts (given_up E dir p t w) j)"
    proof
      assume "\<exists>j<length (t # ts). ?P (t # ts) w j"
      then obtain j where j: "j < length (t # ts)" "?P (t # ts) w j" by blast
      with n0 have "j \<noteq> 0" by (cases j) auto
      then obtain k where k: "j = Suc k" by (cases j) auto
      with j have "k < length ts" "?P ts (given_up E dir p t w) k"
        using suc[of k] by simp_all
      then show "\<exists>j<length ts. ?P ts (given_up E dir p t w) j" by blast
    next
      assume "\<exists>j<length ts. ?P ts (given_up E dir p t w) j"
      then obtain k where k: "k < length ts" "?P ts (given_up E dir p t w) k" by blast
      then have "Suc k < length (t # ts)" "?P (t # ts) w (Suc k)"
        using suc[of k] by simp_all
      then show "\<exists>j<length (t # ts). ?P (t # ts) w j" by blast
    qed
    then show ?thesis
      unfolding step Cons.IH by simp
  qed
qed

lemma probed_run:
  assumes "0 < p" "p < 65536" "p \<noteq> 80" and "probed E dir p t v = (b, u)"
  shows "(\<exists>es. trace u = trace v @ [Spawn (call_of E dir t) (child_pid E v (call_of E dir t))] @ es \<and>
            (\<forall>e\<in>set es. probe_event (''http://127.0.0.1:'' @ String_nat p) 600 e)) \<and>
         (if b then now u < now v + 26000 else now v + 20000 \<le> now u \<and> now u < now v + 26600)"
proof -
  let ?base = "''http://127.0.0.1:'' @ String_nat p"
  have r: "waitForOkAny E ?base 20000 600 (spawned E dir t v) = (b, u)"
    using assms(4) unfolding probed_def .
  from waitForOkAny_run[OF r] obtain es where es:
    "trace u = trace (spawned E dir t v) @ es"
    "\<forall>e\<in>set es. tick_event E ?base 600 e"
    "if b then 0 < (20000::nat) \<and>
        now u < now (spawned E dir t v) + 20000 + 10 * timer_delay (min 2000 600) \<and>
        (\<exists>v' x m. x \<in> set (urls E ?base paths) \<and> ok (fst (ping E x m (min 2000 600) v')) \<and>
           u = snd (ping E x m (min 2000 600) v'))
     else now (spawned E dir t v) + 20000 \<le> now u \<and>
        now u < now (spawned E dir t v) + 20000 + 10 * timer_delay (min 2000 600) + timer_delay 600"
    by blast
  have pe: "\<forall>e\<in>set es. probe_event ?base 600 e"
    using es(2) unfolding tick_event_origin[OF assms(1-3)] .
  have tr: "trace u = trace v @ [Spawn (call_of E dir t) (child_pid E v (call_of E dir t))] @ es"
    using es(1) by (simp add: spawned_def emit_def)
  have nv: "now (spawned E dir t v) = now v"
    by (simp add: spawned_def emit_def)
  have td: "timer_delay (min 2000 600) = 600" "timer_delay 600 = 600"
    by (simp_all add: timer_delay_def)
  have "if b then now u < now v + 26000 else now v + 20000 \<le> now u \<and> now u < now v + 26600"
    using es(3) unfolding nv td by (cases b) simp_all
  with tr pe show ?thesis by blast
qed

lemma probed_all_fail:
  assumes "\<forall>v url m. \<not> ok (fst (ping E url m (min 2000 600) v))"
  shows "\<not> fst (probed E dir p t v)"
proof -
  have "\<forall>v m. \<forall>x\<in>set (urls E (''http://127.0.0.1:'' @ String_nat p) paths).
      \<not> ok (fst (ping E x m (min 2000 600) v))"
    using assms by blast
  from waitForOkAny_all_fail[OF this, of 20000 "spawned E dir t v"]
  show ?thesis
    unfolding probed_def by auto
qed

lemma probe_event_not_control: "probe_event base i e \<Longrightarrow> \<not> is_control e"
  by (auto simp: probe_event_def is_control_def split: event.splits)

lemma filter_control_probe:
  "\<forall>e\<in>set es. probe_event base i e \<Longrightarrow> filter is_control es = []"
  by (auto simp: filter_empty_conv dest: probe_event_not_control)

lemma try_each_shape:
  assumes "0 < p" "p < 65536" "p \<noteq> 80"
  shows "\<exists>es children.
     trace (snd (try_each E dir p ts w)) = trace w @ es \<and>
     (\<forall>e\<in>set es. attempt_event (''http://127.0.0.1:'' @ String_nat p) e) \<and>
     (\<forall>child\<in>set children. \<exists>v c. child = child_pid E v c) \<and>
     (case fst (try_each E dir p ts w) of
        None \<Rightarrow> length children = length ts \<and>
          filter is_control es = failed_runs E dir (zip ts children)
      | Some child \<Rightarrow> length children < length ts \<and>
          filter is_control es = failed_runs E dir (zip ts children)
            @ [Spawn (call_of E dir (ts ! length children)) child])"
proof (induction ts arbitrary: w)
  case Nil
  show ?case
    by (intro exI[of _ "[]"]) (simp add: failed_runs_def)
next
  case (Cons t ts)
  let ?base = "''http://127.0.0.1:'' @ String_nat p"
  let ?c = "call_of E dir t"
  obtain child w1 where s: "spawnDev E dir (args t)
      (case env t of Some vars \<Rightarrow> vars | None \<Rightarrow> process_env E) Inherit w = (child, w1)"
    by (cases "spawnDev E dir (args t) (case env t of Some vars \<Rightarrow> vars | None \<Rightarrow> process_env E) Inherit w")
  have child: "child = child_pid E w ?c" and t1: "trace w1 = trace w @ [Spawn ?c child]"
    using s by (auto simp: spawnDev_def call_of_def Let_def emit_def)
  obtain healthy w2 where h: "waitForOkAny E ?base 20000 600 w1 = (healthy, w2)"
    by (cases "waitForOkAny E ?base 20000 600 w1")
  from waitForOkAny_events[OF assms, of E 20000 600 w1] h obtain es1 where es1:
    "trace w2 = trace w1 @ es1" "\<forall>e\<in>set es1. probe_event ?base 600 e"
    by auto
  have f1: "filter is_control es1 = []"
    using es1(2) by (rule filter_control_probe)
  have a1: "\<forall>e\<in>set es1. attempt_event ?base e"
    using es1(2) by (simp add: attempt_event_def)
  have cs: "is_control (Spawn ?c child)" "attempt_event ?base (Spawn ?c child)"
    by (simp_all add: is_control_def attempt_event_def)
  show ?case
  proof (cases healthy)
    case True
    then have r: "try_each E dir p (t # ts) w = (Some child, w2)"
      using s h by (simp add: Let_def)
    show ?thesis
      unfolding r
      using t1 es1(1) f1 a1 cs
      by (intro exI[of _ "Spawn ?c child # es1"] exI[of _ "[]"]) (simp add: failed_runs_def)
  next
    case False
    let ?k = "Kill (case child of Some pid \<Rightarrow> pid | None \<Rightarrow> - 1) ''SIGTERM''"
    let ?w4 = "sleep 300 (snd (process_kill E (case child of Some pid \<Rightarrow> pid | None \<Rightarrow> - 1) ''SIGTERM'' w2))"
    have r: "try_each E dir p (t # ts) w = try_each E dir p ts ?w4"
      using False s h by (simp add: Let_def)
    have t4: "trace ?w4 = trace w @ (Spawn ?c child # es1 @ [?k, Sleep 300])"
      using t1 es1(1) by (simp add: sleep_def process_kill_def emit_def)
    have ck: "is_control ?k" "attempt_event ?base ?k" "\<not> is_control (Sleep 300)"
      "attempt_event ?base (Sleep 300)"
      by (simp_all add: is_control_def attempt_event_def)
    from Cons.IH[of ?w4] obtain es children where ih:
      "trace (snd (try_each E dir p ts ?w4)) = trace ?w4 @ es"
      "\<forall>e\<in>set es. attempt_event ?base e"
      "\<forall>child\<in>set children. \<exists>v c. child = child_pid E v c"
      "case fst (try_each E dir p ts ?w4) of
        None \<Rightarrow> length children = length ts \<and>
          filter is_control es = failed_runs E dir (zip ts children)
      | Some child \<Rightarrow> length children < length ts \<and>
          filter is_control es = failed_runs E dir (zip ts children)
            @ [Spawn (call_of E dir (ts ! length children)) child]"
      by blast
    let ?es = "Spawn ?c child # es1 @ [?k, Sleep 300] @ es"
    have "trace (snd (try_each E dir p (t # ts) w)) = trace w @ ?es"
      unfolding r using ih(1) t4 by simp
    moreover have "\<forall>e\<in>set ?es. attempt_event ?base e"
      using a1 cs ck ih(2) by auto
    moreover have "\<forall>x\<in>set (child # children). \<exists>v c. x = child_pid E v c"
      using ih(3) child by auto
    moreover have fe: "filter is_control ?es = [Spawn ?c child, ?k] @ filter is_control es"
      using f1 cs ck by simp
    have "case fst (try_each E dir p (t # ts) w) of
        None \<Rightarrow> length (child # children) = length (t # ts) \<and>
          filter is_control ?es = failed_runs E dir (zip (t # ts) (child # children))
      | Some x \<Rightarrow> length (child # children) < length (t # ts) \<and>
          filter is_control ?es = failed_runs E dir (zip (t # ts) (child # children))
            @ [Spawn (call_of E dir ((t # ts) ! length (child # children))) x]"
      unfolding r fe using ih(4) by (auto simp: failed_runs_def split: option.splits)
    ultimately show ?thesis by blast
  qed
qed

lemma tries_length: "length (tries E isVite isNext p) = (if isNext then 2 else 1)"
  by (simp add: tries_def Let_def)

lemma tries_env:
  "t \<in> set (tries E isVite isNext p) \<Longrightarrow>
     env t = Some (AList.update ''PORT'' (String_nat p) (process_env E))"
  by (auto simp: tries_def Let_def split: if_splits)

lemma attempt_event_not_Close: "attempt_event base e \<Longrightarrow> \<not> is_Close e"
  by (auto simp: attempt_event_def is_control_def probe_event_def is_Close_def split: event.splits)

lemma try_each_all_fail:
  assumes "\<forall>v url m. \<not> ok (fst (ping E url m (min 2000 600) v))"
  shows "fst (try_each E dir p ts w) = None"
proof (induction ts arbitrary: w)
  case Nil
  then show ?case by simp
next
  case (Cons t ts)
  let ?base = "''http://127.0.0.1:'' @ String_nat p"
  obtain child w1 where s: "spawnDev E dir (args t)
      (case env t of Some vars \<Rightarrow> vars | None \<Rightarrow> process_env E) Inherit w = (child, w1)"
    by (cases "spawnDev E dir (args t) (case env t of Some vars \<Rightarrow> vars | None \<Rightarrow> process_env E) Inherit w")
  obtain healthy w2 where h: "waitForOkAny E ?base 20000 600 w1 = (healthy, w2)"
    by (cases "waitForOkAny E ?base 20000 600 w1")
  have "\<forall>v m. \<forall>x\<in>set (urls E ?base paths). \<not> ok (fst (ping E x m (min 2000 600) v))"
    using assms by blast
  from waitForOkAny_all_fail[OF this, of 20000 w1] h have "healthy = False"
    by auto
  then have "try_each E dir p (t # ts) w = try_each E dir p ts
      (sleep 300 (snd (process_kill E (case child of Some pid \<Rightarrow> pid | None \<Rightarrow> - 1) ''SIGTERM'' w2)))"
    using s h by (simp add: Let_def)
  then show ?case
    using Cons.IH by simp
qed

lemma env_next_down_unhealthy:
  "\<forall>v url m. \<not> ok (fst (ping env_next_down url m (min 2000 600) v))"
  by (simp add: ok_ping env_next_down_def env_idle_def)

lemma env_next_down_alloc:
  "getFreePort env_next_down 5100 5199 w = (Inr 5100, emit [Listen 5100 True, Close 5100] w)"
  by (simp add: getFreePort_Inr after_failed_Nil env_next_down_def env_idle_def)

lemma env_next_down_tries:
  "tries env_next_down False True 5100 =
     [\<lparr>args = [''run'', ''dev'', ''--'', ''--port'', ''5100''], env = Some [(''PORT'', ''5100'')],
       note_of = ''next --port''\<rparr>,
      \<lparr>args = [''run'', ''dev''], env = Some [(''PORT'', ''5100'')],
       note_of = ''next env PORT only''\<rparr>]"
  by (simp add: tries_def Let_def String_nat_5100 env_next_down_def env_idle_def)

lemma env_next_down_detect:
  "spawnDevServerWithRetry env_next_down ''/app'' n w = attempts env_next_down ''/app'' False True n w"
  by (simp add: spawnDevServerWithRetry_def env_next_down_def env_idle_def has_dep_def next_pkg_def)

text \<open>
  C6, as stated, fails: an attempt does not pair its port with a single strategy. For a
  Next project whose dev server never answers, one attempt (\<open>maxRetry = 1\<close>) allocates
  port 5100 once and spawns two strategies with it, \<open>--port 5100\<close> and then \<open>PORT\<close> only.
\<close>

theorem next_attempt_two_spawns_counterexample:
  "filter is_launch_step (trace (snd (spawnDevServerWithRetry env_next_down ''/app'' 1 world0)))
     = [Close 5100, Spawn port_flag_call (Some 4242), Kill 4242 ''SIGTERM'',
        Spawn port_env_call (Some 4242), Kill 4242 ''SIGTERM'']"
proof -
  let ?E = env_next_down
  let ?w1 = "emit [Listen 5100 True, Close 5100] world0"
  let ?ts = "tries ?E False True 5100"
  let ?R = "try_each ?E ''/app'' 5100 ?ts ?w1"
  have none: "fst ?R = None"
    using env_next_down_unhealthy by (rule try_each_all_fail)
  have port: "0 < (5100::nat)" "(5100::nat) < 65536" "(5100::nat) \<noteq> 80"
    by simp_all
  from try_each_shape[OF port, of ?E "''/app''" ?ts ?w1] none obtain es children where sh:
    "trace (snd ?R) = trace ?w1 @ es"
    "\<forall>e\<in>set es. attempt_event (''http://127.0.0.1:'' @ String_nat 5100) e"
    "\<forall>child\<in>set children. \<exists>v c. child = child_pid ?E v c"
    "length children = length ?ts"
    "filter is_control es = failed_runs ?E ''/app'' (zip ?ts children)"
    by auto
  have "length children = 2"
    using sh(4) by (simp add: tries_length)
  then obtain a b where ab: "children = [a, b]"
    by (metis (no_types, opaque_lifting) One_nat_def Suc_1 length_0_conv length_Suc_conv)
  have "a = Some 4242" "b = Some 4242"
    using sh(3) ab by (auto simp: env_next_down_def env_idle_def)
  then have children: "children = [Some 4242, Some 4242]"
    using ab by simp
  have ctl: "filter is_control es = [Spawn port_flag_call (Some 4242), Kill 4242 ''SIGTERM'',
        Spawn port_env_call (Some 4242), Kill 4242 ''SIGTERM'']"
    unfolding sh(5) children env_next_down_tries
    by (simp add: failed_runs_def call_of_def port_flag_call_def port_env_call_def
        env_next_down_def env_idle_def)
  have "filter is_launch_step es = filter is_control es"
    using sh(2) by (intro filter_cong) (auto simp: is_launch_step_def dest: attempt_event_not_Close)
  then have es: "filter is_launch_step es = [Spawn port_flag_call (Some 4242), Kill 4242 ''SIGTERM'',
        Spawn port_env_call (Some 4242), Kill 4242 ''SIGTERM'']"
    using ctl by simp
  obtain r w2 where R: "?R = (r, w2)"
    by (cases ?R)
  then have "r = None" using none by simp
  then have "attempts ?E ''/app'' False True (Suc 0) world0
      = (Inl (Error ''Failed to start dev server''), w2)"
    using R by (simp add: env_next_down_alloc)
  then have "spawnDevServerWithRetry ?E ''/app'' 1 world0 = (Inl (Error ''Failed to start dev server''), snd ?R)"
    using R by (simp add: env_next_down_detect)
  then have "trace (snd (spawnDevServerWithRetry ?E ''/app'' 1 world0))
      = [Listen 5100 True, Close 5100] @ es"
    using sh(1) by (simp add: emit_def world0_def)
  then show ?thesis
    using es by (simp add: is_launch_step_def is_control_def is_Close_def)
qed

text \<open>
  C6, amended. An attempt with attempts left allocates one port with \<open>getFreePort\<close> (and
  the launch fails with the allocator's error when that fails). With that one port it
  takes the strategies of \<open>tries\<close> in order, the one with the \<open>--port\<close> flag and, for
  a Next project, a second one with \<open>PORT\<close> only, all with \<open>PORT\<close> set to the port,
  until one is healthy: each is spawned as \<open>npm\<close> with the strategy's
  arguments, the project root as working directory and the strategy's environment, and
  probed by \<open>waitForOkAny\<close> on \<open>http://127.0.0.1:<port>\<close> with the budget of 20 s, whose
  requests all go to that origin and which says false between 20 s and 26.6 s after the
  spawn and true less than 26 s after it. The first strategy whose probe says true ends
  the launch with its child and the port; a strategy whose probe says false has its
  child sent SIGTERM and is followed by a pause of 300 ms before the next spawn. When the
  probes of all strategies say false the next attempt starts, with a new allocation and
  the first strategy again. With no attempt left the launch fails with "Failed to start
  dev server".
\<close>

theorem launch_attempt:
  "(getFreePort E 5100 5199 w = (Inl err, w1) \<longrightarrow>
      attempts E dir isVite isNext (Suc k) w = (Inl err, w1)) \<and>
   (getFreePort E 5100 5199 w = (Inr p, w1) \<longrightarrow>
      attempts E dir isVite isNext (Suc k) w =
        (case try_each E dir p (tries E isVite isNext p) w1 of
           (Some child, w2) \<Rightarrow> (Inr (child, p), w2)
         | (None, w2) \<Rightarrow> attempts E dir isVite isNext k w2) \<and>
      (\<forall>t v b u. probed E dir p t v = (b, u) \<longrightarrow>
         (\<exists>es. trace u = trace v @ [Spawn (call_of E dir t) (child_pid E v (call_of E dir t))] @ es \<and>
            (\<forall>e\<in>set es. probe_event (''http://127.0.0.1:'' @ String_nat p) 600 e)) \<and>
         (if b then now u < now v + 26000
          else now v + 20000 \<le> now u \<and> now u < now v + 26600))) \<and>
   (try_each E dir p ts v0 = (None, w2) \<longleftrightarrow>
      (\<forall>j<length ts. \<not> fst (probed E dir p (ts ! j) (before E dir p ts j v0))) \<and>
      w2 = before E dir p ts (length ts) v0) \<and>
   (try_each E dir p ts v0 = (Some child, w2) \<longleftrightarrow>
      (\<exists>j<length ts.
         (\<forall>i<j. \<not> fst (probed E dir p (ts ! i) (before E dir p ts i v0))) \<and>
         probed E dir p (ts ! j) (before E dir p ts j v0) = (True, w2) \<and>
         child = child_pid E (before E dir p ts j v0) (call_of E dir (ts ! j)))) \<and>
   attempts E dir isVite isNext 0 w = (Inl (Error ''Failed to start dev server''), w) \<and>
   map args (tries E isVite isNext p) =
     [if isVite
      then [''run'', ''dev'', ''--'', ''--port'', String_nat p, ''--host'', ''127.0.0.1'', ''--strictPort'']
      else [''run'', ''dev'', ''--'', ''--port'', String_nat p]]
     @ (if isNext then [[''run'', ''dev'']] else []) \<and>
   (\<forall>t\<in>set (tries E isVite isNext p).
      env t = Some (AList.update ''PORT'' (String_nat p) (process_env E)) \<and>
      sp_cmd (call_of E dir t) = (if platform E = ''win32'' then ''npm.cmd'' else ''npm'') \<and>
      sp_args (call_of E dir t) = args t \<and>
      sp_cwd (call_of E dir t) = dir \<and>
      sp_env (call_of E dir t) = AList.update ''PORT'' (String_nat p) (process_env E))"
proof (intro conjI impI allI)
  assume "getFreePort E 5100 5199 w = (Inl err, w1)"
  then show "attempts E dir isVite isNext (Suc k) w = (Inl err, w1)"
    by simp
next
  assume "getFreePort E 5100 5199 w = (Inr p, w1)"
  then show "attempts E dir isVite isNext (Suc k) w =
        (case try_each E dir p (tries E isVite isNext p) w1 of
           (Some child, w2) \<Rightarrow> (Inr (child, p), w2)
         | (None, w2) \<Rightarrow> attempts E dir isVite isNext k w2)"
    by simp
next
  fix t v b u
  assume g: "getFreePort E 5100 5199 w = (Inr p, w1)" and r: "probed E dir p t v = (b, u)"
  note run = probed_run[OF allocated_port[OF g] r]
  from run show "\<exists>es. trace u = trace v @ [Spawn (call_of E dir t) (child_pid E v (call_of E dir t))] @ es \<and>
            (\<forall>e\<in>set es. probe_event (''http://127.0.0.1:'' @ String_nat p) 600 e)"
    by (rule conjunct1)
  from run show "if b then now u < now v + 26000
          else now v + 20000 \<le> now u \<and> now u < now v + 26600"
    by (rule conjunct2)
next
  show "try_each E dir p ts v0 = (None, w2) \<longleftrightarrow>
      (\<forall>j<length ts. \<not> fst (probed E dir p (ts ! j) (before E dir p ts j v0))) \<and>
      w2 = before E dir p ts (length ts) v0"
    by (rule try_each_None)
next
  show "try_each E dir p ts v0 = (Some child, w2) \<longleftrightarrow>
      (\<exists>j<length ts.
         (\<forall>i<j. \<not> fst (probed E dir p (ts ! i) (before E dir p ts i v0))) \<and>
         probed E dir p (ts ! j) (before E dir p ts j v0) = (True, w2) \<and>
         child = child_pid E (before E dir p ts j v0) (call_of E dir (ts ! j)))"
    by (rule try_each_Some_iff)
next
  show "attempts E dir isVite isNext 0 w = (Inl (Error ''Failed to start dev server''), w)"
    by simp
next
  show "map args (tries E isVite isNext p) =
     [if isVite
      then [''run'', ''dev'', ''--'', ''--port'', String_nat p, ''--host'', ''127.0.0.1'', ''--strictPort'']
      else [''run'', ''dev'', ''--'', ''--port'', String_nat p]]
     @ (if isNext then [[''run'', ''dev'']] else [])"
    by (simp add: tries_def Let_def)
next
  show "\<forall>t\<in>set (tries E isVite isNext p).
      env t = Some (AList.update ''PORT'' (String_nat p) (process_env E)) \<and>
      sp_cmd (call_of E dir t) = (if platform E = ''win32'' then ''npm.cmd'' else ''npm'') \<and>
      sp_args (call_of E dir t) = args t \<and>
      sp_cwd (call_of E dir t) = dir \<and>
      sp_env (call_of E dir t) = AList.update ''PORT'' (String_nat p) (process_env E)"
    by (auto simp: call_of_def dest: tries_env)
qed

theorem launch_attempt_witness:
  "try_each env_next_down ''/app'' 5100 (tries env_next_down False True 5100)
       (emit [Listen 5100 True, Close 5100] world0)
     = (None, before env_next_down ''/app'' 5100 (tries env_next_down False True 5100) 2
                (emit [Listen 5100 True, Close 5100] world0)) \<and>
   attempts env_next_down ''/app'' False True (Suc 0) world0
     = (Inl (Error ''Failed to start dev server''),
        before env_next_down ''/app'' 5100 (tries env_next_down False True 5100) 2
          (emit [Listen 5100 True, Close 5100] world0)) \<and>
   try_each env_idle ''/app'' 5100 (tries env_idle False False 5100)
       (emit [Listen 5100 True, Close 5100] world0)
     = (Some (Some 4242),
        \<lparr>now = 5, trace = [Listen 5100 True, Close 5100, Spawn port_flag_call (Some 4242),
                            Fetch ''http://127.0.0.1:5100/'' HEAD 600]\<rparr>) \<and>
   attempts env_full ''/app'' False True (Suc 0) world0
     = (Inl (Error ''No free port found''), after_failed [5100..<Suc 5199] world0) \<and>
   (\<exists>es. [Listen 5100 True, Close 5100, Spawn port_flag_call (Some 4242),
           Fetch ''http://127.0.0.1:5100/'' HEAD 600]
        = [Listen 5100 True, Close 5100] @ [Spawn port_flag_call (Some 4242)] @ es \<and>
      (\<forall>e\<in>set es. probe_event ''http://127.0.0.1:5100'' 600 e))"
proof -
  let ?w1 = "emit [Listen 5100 True, Close 5100] world0"
  let ?N = env_next_down
  let ?ts = "tries env_next_down False True 5100"
  let ?t0 = "\<lparr>args = [''run'', ''dev'', ''--'', ''--port'', ''5100''], env = Some [(''PORT'', ''5100'')],
       note_of = ''unknown --port''\<rparr>"
  let ?w2 = "\<lparr>now = 5, trace = [Listen 5100 True, Close 5100, Spawn port_flag_call (Some 4242),
                            Fetch ''http://127.0.0.1:5100/'' HEAD 600]\<rparr>"
  have g1: "getFreePort ?N 5100 5199 world0 = (Inr 5100, ?w1)"
    by (rule env_next_down_alloc)
  have g2: "getFreePort env_full 5100 5199 world0
     = (Inl (Error ''No free port found''), after_failed [5100..<Suc 5199] world0)"
    by (simp add: getFreePort_Inl env_full_def)
  have g3: "getFreePort env_idle 5100 5199 world0 = (Inr 5100, ?w1)"
    by (simp add: getFreePort_Inr after_failed_Nil env_idle_def)
  have fails: "\<forall>j<length ?ts. \<not> fst (probed ?N ''/app'' 5100 (?ts ! j) (before ?N ''/app'' 5100 ?ts j ?w1))"
    using probed_all_fail[OF env_next_down_unhealthy] by blast
  have len: "length ?ts = 2"
    by (simp add: tries_length)
  have ts: "tries env_idle False False 5100 = [?t0]"
    by (simp add: tries_def Let_def String_nat_5100 env_idle_def)
  have c0: "call_of env_idle ''/app'' ?t0 = port_flag_call"
    by (simp add: call_of_def port_flag_call_def env_idle_def)
  have sp: "spawned env_idle ''/app'' ?t0 ?w1
      = \<lparr>now = 0, trace = [Listen 5100 True, Close 5100, Spawn port_flag_call (Some 4242)]\<rparr>"
    unfolding spawned_def c0 by (simp add: env_idle_def emit_def world0_def)
  have h: "waitForOkAny env_idle ''http://127.0.0.1:5100'' 20000 600
      \<lparr>now = 0, trace = [Listen 5100 True, Close 5100, Spawn port_flag_call (Some 4242)]\<rparr> = (True, ?w2)"
    by (simp add: waitForOkAny_def waitLoop.simps paths_def ping_def Let_def new_URL_5100
        timer_delay_def emit_def env_idle_def)
  have pr: "probed env_idle ''/app'' 5100 ?t0 ?w1 = (True, ?w2)"
    unfolding probed_def sp using h by (simp add: String_nat_5100)
  have healthy: "\<exists>j<length [?t0].
         (\<forall>i<j. \<not> fst (probed env_idle ''/app'' 5100 ([?t0] ! i) (before env_idle ''/app'' 5100 [?t0] i ?w1))) \<and>
         probed env_idle ''/app'' 5100 ([?t0] ! j) (before env_idle ''/app'' 5100 [?t0] j ?w1) = (True, ?w2) \<and>
         Some 4242 = child_pid env_idle (before env_idle ''/app'' 5100 [?t0] j ?w1)
                       (call_of env_idle ''/app'' ([?t0] ! j))"
    using pr by (intro exI[of _ 0]) (simp add: before_0 env_idle_def)
  note a = launch_attempt [where E = ?N and w = world0 and p = 5100 and ?w1.0 = ?w1
      and dir = "''/app''" and isVite = False and isNext = True and k = 0 and ts = ?ts
      and ?v0.0 = ?w1 and ?w2.0 = "before ?N ''/app'' 5100 ?ts 2 ?w1"]
  note b = launch_attempt [where E = env_full and w = world0
      and ?w1.0 = "after_failed [5100..<Suc 5199] world0" and dir = "''/app''"
      and isVite = False and isNext = True and k = 0 and err = "Error ''No free port found''"]
  note c = launch_attempt [where E = env_idle and w = world0 and p = 5100 and ?w1.0 = ?w1
      and dir = "''/app''" and ts = "[?t0]" and ?v0.0 = ?w1 and ?w2.0 = ?w2
      and child = "Some 4242"]
  have none: "try_each ?N ''/app'' 5100 ?ts ?w1 = (None, before ?N ''/app'' 5100 ?ts 2 ?w1)"
    using a [THEN conjunct2, THEN conjunct2, THEN conjunct1] fails len by simp
  have att: "attempts ?N ''/app'' False True (Suc 0) world0
     = (Inl (Error ''Failed to start dev server''), before ?N ''/app'' 5100 ?ts 2 ?w1)"
    using a [THEN conjunct2, THEN conjunct1, THEN mp, OF g1, THEN conjunct1] none by simp
  have some: "try_each env_idle ''/app'' 5100 (tries env_idle False False 5100) ?w1 = (Some (Some 4242), ?w2)"
    unfolding ts
    using c [THEN conjunct2, THEN conjunct2, THEN conjunct2, THEN conjunct1] healthy by blast
  have full: "attempts env_full ''/app'' False True (Suc 0) world0
     = (Inl (Error ''No free port found''), after_failed [5100..<Suc 5199] world0)"
    using b [THEN conjunct1, THEN mp, OF g2] .
  have "\<exists>es. trace ?w2 = trace ?w1 @ [Spawn (call_of env_idle ''/app'' ?t0)
                (child_pid env_idle ?w1 (call_of env_idle ''/app'' ?t0))] @ es \<and>
      (\<forall>e\<in>set es. probe_event (''http://127.0.0.1:'' @ String_nat 5100) 600 e)"
    using c [THEN conjunct2, THEN conjunct1, THEN mp, OF g3, THEN conjunct2, rule_format, OF pr]
    by (rule conjunct1)
  then have ev: "\<exists>es. [Listen 5100 True, Close 5100, Spawn port_flag_call (Some 4242),
           Fetch ''http://127.0.0.1:5100/'' HEAD 600]
        = [Listen 5100 True, Close 5100] @ [Spawn port_flag_call (Some 4242)] @ es \<and>
      (\<forall>e\<in>set es. probe_event ''http://127.0.0.1:5100'' 600 e)"
    unfolding c0 by (simp add: String_nat_5100 emit_def world0_def env_idle_def)
  from none att some full ev show ?thesis
    by blast
qed

lemma failed_runs_inherit: "e \<in> set (failed_runs E dir tcs) \<Longrightarrow> spawn_inherits e"
  by (auto simp: failed_runs_def spawn_inherits_def call_of_def)

lemma not_control_inherits: "\<not> is_control e \<Longrightarrow> spawn_inherits e"
  by (auto simp: is_control_def spawn_inherits_def split: event.splits)

lemma try_each_inherits:
  assumes "0 < p" "p < 65536" "p \<noteq> 80"
    and "trace (snd (try_each E dir p ts w)) = trace w @ es"
  shows "\<forall>e\<in>set es. spawn_inherits e"
proof -
  from try_each_shape[OF assms(1-3), of E dir ts w] obtain es' children where sh:
    "trace (snd (try_each E dir p ts w)) = trace w @ es'"
    "case fst (try_each E dir p ts w) of
        None \<Rightarrow> length children = length ts \<and>
          filter is_control es' = failed_runs E dir (zip ts children)
      | Some child \<Rightarrow> length children < length ts \<and>
          filter is_control es' = failed_runs E dir (zip ts children)
            @ [Spawn (call_of E dir (ts ! length children)) child]"
    by blast
  have es: "es' = es" using sh(1) assms(4) by simp
  have "spawn_inherits e" if "e \<in> set (filter is_control es)" for e
  proof (cases "fst (try_each E dir p ts w)")
    case None
    then have "filter is_control es = failed_runs E dir (zip ts children)"
      using sh(2) es by simp
    with that show ?thesis
      by (auto dest: failed_runs_inherit)
  next
    case (Some child)
    then have "filter is_control es = failed_runs E dir (zip ts children)
            @ [Spawn (call_of E dir (ts ! length children)) child]"
      using sh(2) es by simp
    with that have "e \<in> set (failed_runs E dir (zip ts children))
        \<or> e = Spawn (call_of E dir (ts ! length children)) child"
      by auto
    then show ?thesis
      by (auto dest: failed_runs_inherit simp: spawn_inherits_def call_of_def)
  qed
  note ctl = this
  show ?thesis
  proof
    fix e
    assume e: "e \<in> set es"
    show "spawn_inherits e"
    proof (cases "is_control e")
      case True
      with e have "e \<in> set (filter is_control es)" by simp
      then show ?thesis by (rule ctl)
    next
      case False
      then show ?thesis by (rule not_control_inherits)
    qed
  qed
qed

lemma try_each_Some:
  "try_each E dir p ts w = (Some child, w') \<Longrightarrow>
     \<exists>v. waitForOkAny E (''http://127.0.0.1:'' @ String_nat p) 20000 600 v = (True, w')"
proof (induction ts arbitrary: w)
  case Nil
  then show ?case by simp
next
  case (Cons t ts)
  let ?base = "''http://127.0.0.1:'' @ String_nat p"
  obtain c w1 where s: "spawnDev E dir (args t)
      (case env t of Some vars \<Rightarrow> vars | None \<Rightarrow> process_env E) Inherit w = (c, w1)"
    by (cases "spawnDev E dir (args t) (case env t of Some vars \<Rightarrow> vars | None \<Rightarrow> process_env E) Inherit w")
  obtain healthy w2 where h: "waitForOkAny E ?base 20000 600 w1 = (healthy, w2)"
    by (cases "waitForOkAny E ?base 20000 600 w1")
  show ?case
  proof (cases healthy)
    case True
    then have "try_each E dir p (t # ts) w = (Some c, w2)"
      using s h by (simp add: Let_def)
    with Cons.prems have "w' = w2" by simp
    with h True have X: "waitForOkAny E ?base 20000 600 w1 = (True, w')" by simp
    show ?thesis by (rule exI[of _ w1]) (rule X)
  next
    case False
    then have "try_each E dir p (t # ts) w = try_each E dir p ts
      (sleep 300 (snd (process_kill E (case c of Some pid \<Rightarrow> pid | None \<Rightarrow> - 1) ''SIGTERM'' w2)))"
      using s h by (simp add: Let_def)
    with Cons.prems have "try_each E dir p ts
      (sleep 300 (snd (process_kill E (case c of Some pid \<Rightarrow> pid | None \<Rightarrow> - 1) ''SIGTERM'' w2)))
        = (Some child, w')"
      by simp
    then show ?thesis by (rule Cons.IH)
  qed
qed

lemma attempts_success:
  "attempts E dir isVite isNext k w = (Inr (child, p), w') \<Longrightarrow>
     \<exists>pre es v. trace w' = trace w @ pre @ [Listen p True, Close p] @ es \<and>
       (\<forall>e\<in>set es. attempt_event (''http://127.0.0.1:'' @ String_nat p) e) \<and>
       (\<forall>e\<in>set (pre @ es). spawn_inherits e) \<and>
       waitForOkAny E (''http://127.0.0.1:'' @ String_nat p) 20000 600 v = (True, w')"
proof (induction k arbitrary: w)
  case 0
  then show ?case by simp
next
  case (Suc k)
  obtain x w1 where g: "getFreePort E 5100 5199 w = (x, w1)"
    by (cases "getFreePort E 5100 5199 w")
  show ?case
  proof (cases x)
    case (Inl e)
    then show ?thesis using Suc.prems g by simp
  next
    case (Inr q)
    let ?fails = "map (\<lambda>i. Listen i False) [5100..<q]"
    have t1: "trace w1 = trace w @ ?fails @ [Listen q True, Close q]"
      using g Inr by (simp add: getFreePort_Inr after_failed_def emit_def)
    have fi: "\<forall>e\<in>set ?fails. spawn_inherits e"
      by (auto simp: spawn_inherits_def)
    let ?ts = "tries E isVite isNext q"
    obtain r w2 where r: "try_each E dir q ?ts w1 = (r, w2)"
      by (cases "try_each E dir q ?ts w1")
    have port: "0 < q" "q < 65536" "q \<noteq> 80"
      using g Inr by (simp_all add: getFreePort_Inr)
    from try_each_shape[OF port, of E dir ?ts w1] r obtain es2 where es2:
      "trace w2 = trace w1 @ es2"
      "\<forall>e\<in>set es2. attempt_event (''http://127.0.0.1:'' @ String_nat q) e"
      by auto
    have in2: "\<forall>e\<in>set es2. spawn_inherits e"
      using try_each_inherits[OF port, of E dir ?ts w1 es2] r es2(1) by simp
    show ?thesis
    proof (cases r)
      case (Some c)
      then have "attempts E dir isVite isNext (Suc k) w = (Inr (c, q), w2)"
        using g Inr r by simp
      with Suc.prems have eq: "c = child" "q = p" "w2 = w'" by simp_all
      from try_each_Some[of E dir q ?ts w1 c w2] r Some obtain v where
        "waitForOkAny E (''http://127.0.0.1:'' @ String_nat q) 20000 600 v = (True, w2)"
        by auto
      then have "waitForOkAny E (''http://127.0.0.1:'' @ String_nat p) 20000 600 v = (True, w')"
        using eq by simp
      moreover have "trace w' = trace w @ ?fails @ [Listen p True, Close p] @ es2"
        using t1 es2(1) eq by simp
      moreover have "\<forall>e\<in>set es2. attempt_event (''http://127.0.0.1:'' @ String_nat p) e"
        using es2(2) eq by simp
      moreover have "\<forall>e\<in>set (?fails @ es2). spawn_inherits e"
        using fi in2 by (simp add: ball_Un)
      ultimately show ?thesis by blast
    next
      case None
      then have "attempts E dir isVite isNext (Suc k) w = attempts E dir isVite isNext k w2"
        using g Inr r by simp
      with Suc.prems have "attempts E dir isVite isNext k w2 = (Inr (child, p), w')" by simp
      from Suc.IH[OF this] obtain pre es v where ih:
        "trace w' = trace w2 @ pre @ [Listen p True, Close p] @ es"
        "\<forall>e\<in>set es. attempt_event (''http://127.0.0.1:'' @ String_nat p) e"
        "\<forall>e\<in>set (pre @ es). spawn_inherits e"
        "waitForOkAny E (''http://127.0.0.1:'' @ String_nat p) 20000 600 v = (True, w')"
        by blast
      let ?pre = "?fails @ [Listen q True, Close q] @ es2 @ pre"
      have "trace w' = trace w @ ?pre @ [Listen p True, Close p] @ es"
        using ih(1) es2(1) t1 by simp
      moreover have "\<forall>e\<in>set (?pre @ es). spawn_inherits e"
        using ih(3) in2 fi by (auto simp: spawn_inherits_def)
      ultimately show ?thesis
        using ih(2,4) by blast
    qed
  qed
qed


lemma tryPorts_bound_port: "tryPorts (E\<lparr>bound_port := f\<rparr>) ps w = tryPorts E ps w"
  by (induction ps arbitrary: w) (simp_all add: tryPort_def)

lemma getFreePort_bound_port: "getFreePort (E\<lparr>bound_port := f\<rparr>) s e w = getFreePort E s e w"
  by (simp add: getFreePort_def tryPorts_bound_port)

lemma ping_bound_port: "ping (E\<lparr>bound_port := f\<rparr>) url m t w = ping E url m t w"
  by (simp add: ping_def)

lemma new_URL_bound_port: "new_URL (E\<lparr>bound_port := f\<rparr>) p base = new_URL E p base"
  by (simp add: new_URL_def)

lemma probe_paths_bound_port:
  "probe_paths (E\<lparr>bound_port := f\<rparr>) base i ps w = probe_paths E base i ps w"
proof (induction ps arbitrary: w)
  case Nil
  show ?case by simp
next
  case (Cons a ps)
  show ?case
    by (cases "new_URL E a base")
      (simp_all add: new_URL_bound_port ping_bound_port Cons.IH Let_def split_beta)
qed

lemma waitLoop_bound_port:
  "waitLoop (E\<lparr>bound_port := f\<rparr>) base t0 tot i w = waitLoop E base t0 tot i w"
proof (induction E base t0 tot i w rule: waitLoop.induct)
  case (1 E base t0 totalMs intervalMs w)
  show ?case
  proof (cases "int (now w) - int t0 < int totalMs")
    case False
    then show ?thesis
      by (simp add: waitLoop.simps[of _ base t0 totalMs intervalMs w])
  next
    case True
    obtain b w1 where p: "probe_paths E base intervalMs paths w = (b, w1)"
      by (cases "probe_paths E base intervalMs paths w")
    show ?thesis
    proof (cases b)
      case True
      then show ?thesis
        using p \<open>int (now w) - int t0 < int totalMs\<close>
        by (simp add: waitLoop.simps[of _ base t0 totalMs intervalMs w] probe_paths_bound_port)
    next
      case False
      with "1.IH"[OF True p[symmetric]]
      have "waitLoop (E\<lparr>bound_port := f\<rparr>) base t0 totalMs intervalMs (sleep intervalMs w1)
          = waitLoop E base t0 totalMs intervalMs (sleep intervalMs w1)"
        by simp
      then show ?thesis
        using p False \<open>int (now w) - int t0 < int totalMs\<close>
        by (simp add: waitLoop.simps[of _ base t0 totalMs intervalMs w] probe_paths_bound_port)
    qed
  qed
qed

lemma waitForOkAny_bound_port:
  "waitForOkAny (E\<lparr>bound_port := f\<rparr>) base tot i w = waitForOkAny E base tot i w"
  by (simp add: waitForOkAny_def waitLoop_bound_port)

lemma try_each_bound_port:
  "try_each (E\<lparr>bound_port := f\<rparr>) dir p ts w = try_each E dir p ts w"
  by (induction ts arbitrary: w)
    (simp_all add: spawnDev_def process_kill_def waitForOkAny_bound_port Let_def split_beta
      cong: option.case_cong)

lemma tries_bound_port: "tries (E\<lparr>bound_port := f\<rparr>) isVite isNext p = tries E isVite isNext p"
  by (simp add: tries_def)

lemma attempts_bound_port:
  "attempts (E\<lparr>bound_port := f\<rparr>) dir isVite isNext k w = attempts E dir isVite isNext k w"
  by (induction k arbitrary: w)
    (simp_all add: getFreePort_bound_port try_each_bound_port tries_bound_port
      split: prod.splits sum.splits option.splits)

text \<open>
  C2, amended. The launcher captures no output of the child and never reads a port from
  it. When a launch succeeds with port \<open>p\<close>, \<open>p\<close> is the port the last \<open>getFreePort\<close> of
  the launch returned; every event after that allocation is a spawn, a kill, a pause or a
  request of the prober to \<open>http://127.0.0.1:p\<close>; the launch ends with a successful
  \<open>waitForOkAny\<close> on \<open>http://127.0.0.1:p\<close>; every child of the launch was spawned with
  stdio \<open>inherit\<close>; and the whole launch is the same whatever port the children report
  as bound.
\<close>

theorem launch_returns_requested_port:
  "(spawnDevServerWithRetry E dir maxRetry w = (Inr (child, p), w') \<longrightarrow>
      (\<exists>pre es v. trace w' = trace w @ pre @ [Listen p True, Close p] @ es \<and>
         (\<forall>e\<in>set es. attempt_event (''http://127.0.0.1:'' @ String_nat p) e) \<and>
         (\<forall>e\<in>set (pre @ es). spawn_inherits e) \<and>
         waitForOkAny E (''http://127.0.0.1:'' @ String_nat p) 20000 600 v = (True, w'))) \<and>
   spawnDevServerWithRetry (E\<lparr>bound_port := f\<rparr>) dir maxRetry w
     = spawnDevServerWithRetry E dir maxRetry w"
proof (intro conjI impI)
  assume "spawnDevServerWithRetry E dir maxRetry w = (Inr (child, p), w')"
  then obtain isVite isNext where "attempts E dir isVite isNext maxRetry w = (Inr (child, p), w')"
    by (auto simp: spawnDevServerWithRetry_def split: option.splits)
  then show "\<exists>pre es v. trace w' = trace w @ pre @ [Listen p True, Close p] @ es \<and>
         (\<forall>e\<in>set es. attempt_event (''http://127.0.0.1:'' @ String_nat p) e) \<and>
         (\<forall>e\<in>set (pre @ es). spawn_inherits e) \<and>
         waitForOkAny E (''http://127.0.0.1:'' @ String_nat p) 20000 600 v = (True, w')"
    by (rule attempts_success)
next
  show "spawnDevServerWithRetry (E\<lparr>bound_port := f\<rparr>) dir maxRetry w
     = spawnDevServerWithRetry E dir maxRetry w"
    by (simp add: spawnDevServerWithRetry_def attempts_bound_port)
qed

lemma env_idle_launch:
  "spawnDevServerWithRetry env_idle ''/app'' 4 world0 =
     (Inr (Some 4242, 5100),
      \<lparr>now = 5, trace = [Listen 5100 True, Close 5100, Spawn port_flag_call (Some 4242),
                          Fetch ''http://127.0.0.1:5100/'' HEAD 600]\<rparr>)"
proof -
  have g: "getFreePort env_idle 5100 5199 world0 = (Inr 5100, emit [Listen 5100 True, Close 5100] world0)"
    by (simp add: getFreePort_Inr after_failed_Nil env_idle_def)
  have ts: "tries env_idle False False 5100 =
     [\<lparr>args = [''run'', ''dev'', ''--'', ''--port'', ''5100''], env = Some [(''PORT'', ''5100'')],
       note_of = ''unknown --port''\<rparr>]"
    by (simp add: tries_def Let_def String_nat_5100 env_idle_def)
  let ?w1 = "\<lparr>now = 0, trace = [Listen 5100 True, Close 5100, Spawn port_flag_call (Some 4242)]\<rparr>"
  have s: "spawnDev env_idle ''/app'' [''run'', ''dev'', ''--'', ''--port'', ''5100'']
      [(''PORT'', ''5100'')] Inherit (emit [Listen 5100 True, Close 5100] world0) = (Some 4242, ?w1)"
    by (simp add: spawnDev_def Let_def port_flag_call_def env_idle_def emit_def world0_def)
  have h: "waitForOkAny env_idle ''http://127.0.0.1:5100'' 20000 600 ?w1 =
      (True, \<lparr>now = 5, trace = [Listen 5100 True, Close 5100, Spawn port_flag_call (Some 4242),
                          Fetch ''http://127.0.0.1:5100/'' HEAD 600]\<rparr>)"
    by (simp add: waitForOkAny_def waitLoop.simps paths_def ping_def Let_def new_URL_5100
        timer_delay_def emit_def env_idle_def)
  have a: "attempts env_idle ''/app'' False False (Suc 3) world0 =
     (Inr (Some 4242, 5100),
      \<lparr>now = 5, trace = [Listen 5100 True, Close 5100, Spawn port_flag_call (Some 4242),
                          Fetch ''http://127.0.0.1:5100/'' HEAD 600]\<rparr>)"
    unfolding attempts.simps(2)[of env_idle "''/app''" False False 3 world0]
    by (simp add: g ts s h String_nat_5100)
  have four: "(4::nat) = Suc 3"
    by simp
  have "spawnDevServerWithRetry env_idle ''/app'' 4 world0
      = attempts env_idle ''/app'' False False 4 world0"
    by (simp add: spawnDevServerWithRetry_def env_idle_def)
  also have "\<dots> = attempts env_idle ''/app'' False False (Suc 3) world0"
    by (subst four) (rule refl)
  finally show ?thesis
    unfolding a .
qed

text \<open>
  C2, as stated, fails: the child's output is not captured (stdio is \<open>inherit\<close>) and the
  requested port is taken to be the bound one. On a machine where the child reports port
  5173 while something answers on 5100, the launch probes 5100 and returns 5100.
\<close>

theorem launch_ignores_logged_port_counterexample:
  "spawnDevServerWithRetry env_idle ''/app'' 4 world0 =
     (Inr (Some 4242, 5100),
      \<lparr>now = 5, trace = [Listen 5100 True, Close 5100, Spawn port_flag_call (Some 4242),
                          Fetch ''http://127.0.0.1:5100/'' HEAD 600]\<rparr>) \<and>
   sp_stdio port_flag_call = Inherit \<and>
   bound_port env_idle (emit [Listen 5100 True, Close 5100] world0) port_flag_call = 5173"
  using env_idle_launch by (simp add: port_flag_call_def env_idle_def)

theorem launch_returns_requested_port_witness:
  "spawnDevServerWithRetry env_idle ''/app'' 4 world0 =
     (Inr (Some 4242, 5100),
      \<lparr>now = 5, trace = [Listen 5100 True, Close 5100, Spawn port_flag_call (Some 4242),
                          Fetch ''http://127.0.0.1:5100/'' HEAD 600]\<rparr>) \<and>
   (\<exists>pre es. [Listen 5100 True, Close 5100, Spawn port_flag_call (Some 4242),
                Fetch ''http://127.0.0.1:5100/'' HEAD 600]
        = pre @ [Listen 5100 True, Close 5100] @ es \<and>
      (\<forall>e\<in>set es. attempt_event ''http://127.0.0.1:5100'' e) \<and>
      (\<forall>e\<in>set (pre @ es). spawn_inherits e)) \<and>
   spawnDevServerWithRetry (env_idle\<lparr>bound_port := (\<lambda>w c. 5100)\<rparr>) ''/app'' 4 world0
     = spawnDevServerWithRetry env_idle ''/app'' 4 world0"
proof -
  note t = launch_returns_requested_port [where E = env_idle and dir = "''/app''" and maxRetry = 4
      and w = world0 and child = "Some 4242" and p = 5100
      and w' = "\<lparr>now = 5, trace = [Listen 5100 True, Close 5100, Spawn port_flag_call (Some 4242),
                          Fetch ''http://127.0.0.1:5100/'' HEAD 600]\<rparr>"
      and f = "\<lambda>w c. 5100"]
  have "\<exists>pre es. [Listen 5100 True, Close 5100, Spawn port_flag_call (Some 4242),
                Fetch ''http://127.0.0.1:5100/'' HEAD 600]
        = pre @ [Listen 5100 True, Close 5100] @ es \<and>
      (\<forall>e\<in>set es. attempt_event ''http://127.0.0.1:5100'' e) \<and>
      (\<forall>e\<in>set (pre @ es). spawn_inherits e)"
    using t env_idle_launch by (simp add: String_nat_5100 world0_def) blast
  then show ?thesis
    using t env_idle_launch by blast
qed

end
